theory Spec2Isabelle
  imports Main "HOL-Library.Sublist"
begin

section \<open>Text: Python strings as sequences of code points\<close>

text \<open>
  A Python \<^verbatim>\<open>str\<close> is a sequence of Unicode code points; a code point is modelled as a
  natural number and a string as a list of them.  String literals of the source are
  written as Isabelle literals and converted with \<open>ustr\<close>.
\<close>

type_synonym ustr = "nat list"

definition ustr :: "string \<Rightarrow> ustr" where
  "ustr s = map of_char s"

text \<open>
  \<^verbatim>\<open>str.isspace\<close>, which is also the class \<^verbatim>\<open>\s\<close> of \<^verbatim>\<open>re\<close> on \<^verbatim>\<open>str\<close> patterns and the set
  that \<^verbatim>\<open>str.strip()\<close> removes.
\<close>

definition is_space :: "nat \<Rightarrow> bool" where
  "is_space c \<longleftrightarrow>
     (9 \<le> c \<and> c \<le> 13) \<or> (28 \<le> c \<and> c \<le> 32) \<or> c = 133 \<or> c = 160 \<or> c = 5760 \<or>
     (8192 \<le> c \<and> c \<le> 8202) \<or> c = 8232 \<or> c = 8233 \<or> c = 8239 \<or> c = 8287 \<or> c = 12288"

text \<open>The line boundaries of \<^verbatim>\<open>str.splitlines()\<close>.\<close>

definition is_linebreak :: "nat \<Rightarrow> bool" where
  "is_linebreak c \<longleftrightarrow>
     (10 \<le> c \<and> c \<le> 13) \<or> (28 \<le> c \<and> c \<le> 30) \<or> c = 133 \<or> c = 8232 \<or> c = 8233"

text \<open>
  The Unicode tables beyond ASCII depend on the Unicode version of the interpreter.
  They are a parameter: \<open>decimal_tab\<close> says which non-ASCII code points are decimal digits
  (category Nd), \<open>lower_tab\<close> is \<^verbatim>\<open>str.lower()\<close> on strings that are not pure ASCII.
  On ASCII both are fixed.
\<close>

record ucd =
  decimal_tab :: "nat \<Rightarrow> bool"
  lower_tab :: "ustr \<Rightarrow> ustr"

definition is_decimal :: "ucd \<Rightarrow> nat \<Rightarrow> bool" where
  "is_decimal U c \<longleftrightarrow> (if c < 128 then 48 \<le> c \<and> c \<le> 57 else decimal_tab U c)"

definition ascii_lower :: "nat \<Rightarrow> nat" where
  "ascii_lower c = (if 65 \<le> c \<and> c \<le> 90 then c + 32 else c)"

definition lower :: "ucd \<Rightarrow> ustr \<Rightarrow> ustr" where
  "lower U s = (if list_all (\<lambda>c. c < 128) s then map ascii_lower s else lower_tab U s)"

definition strip :: "ustr \<Rightarrow> ustr" where
  "strip s = rev (dropWhile is_space (rev (dropWhile is_space s)))"

definition startswith :: "ustr \<Rightarrow> ustr list \<Rightarrow> bool" where
  "startswith s ps = list_ex (\<lambda>p. prefix p s) ps"

text \<open>\<^verbatim>\<open>str.splitlines()\<close>: \<open>cur\<close> is the line being read; \<^verbatim>\<open>\r\n\<close> is one boundary, and
  a text that ends in a boundary has no empty last line.\<close>

fun splitlines_from :: "ustr \<Rightarrow> ustr \<Rightarrow> ustr list" where
  "splitlines_from cur [] = (if cur = [] then [] else [cur])"
| "splitlines_from cur [c] =
     (if is_linebreak c then [cur] else [cur @ [c]])"
| "splitlines_from cur (c # d # cs) =
     (if c = 13 \<and> d = 10 then cur # splitlines_from [] cs
      else if is_linebreak c then cur # splitlines_from [] (d # cs)
      else splitlines_from (cur @ [c]) (d # cs))"

definition splitlines :: "ustr \<Rightarrow> ustr list" where
  "splitlines s = splitlines_from [] s"

section \<open>The regular expression of \<^verbatim>\<open>FollowupProposer._parse\<close>\<close>

text \<open>
  A backtracking matcher in the style of \<^verbatim>\<open>re\<close>: \<open>rx_run r st\<close> lists, in the order in which
  backtracking tries them, the states in which \<open>r\<close> can leave the state \<open>st\<close>.  A state is
  the input still to read and the text captured by group 1.
\<close>

datatype rx =
    Cls "nat \<Rightarrow> bool"
  | Eps
  | Eos
  | Seq rx rx
  | Alt rx rx
  | Star rx
  | Grp rx

type_synonym rx_state = "ustr \<times> ustr option"

fun rx_run :: "rx \<Rightarrow> rx_state \<Rightarrow> rx_state list" where
  "rx_run (Cls p) (s, g) = (case s of [] \<Rightarrow> [] | c # cs \<Rightarrow> if p c then [(cs, g)] else [])"
| "rx_run Eps st = [st]"
| "rx_run Eos (s, g) = (if s = [] \<or> s = [10] then [(s, g)] else [])"
| "rx_run (Seq a b) st = concat (map (rx_run b) (rx_run a st))"
| "rx_run (Alt a b) st = rx_run a st @ rx_run b st"
| "rx_run (Star a) st =
     concat (map (\<lambda>st'. if length (fst st') < length (fst st) then rx_run (Star a) st' else [])
                 (rx_run a st)) @ [st]"
| "rx_run (Grp a) (s, g) =
     map (\<lambda>(s', _). (s', Some (take (length s - length s') s))) (rx_run a (s, g))"


definition Plus :: "rx \<Rightarrow> rx" where
  "Plus r = Seq r (Star r)"

definition Opt :: "rx \<Rightarrow> rx" where
  "Opt r = Alt r Eps"

text \<open>\<^verbatim>\<open>re.match(r, s)\<close>: the first state that backtracking reaches, if any.\<close>

definition re_match :: "rx \<Rightarrow> ustr \<Rightarrow> rx_state option" where
  "re_match r s = (case rx_run r (s, None) of [] \<Rightarrow> None | m # _ \<Rightarrow> Some m)"

definition group1 :: "rx_state \<Rightarrow> ustr option" where
  "group1 m = snd m"

text \<open>
  \<^verbatim>\<open>^\s*(?:\d+\.\s*|[-B]\s*)?(.*\S)\s*$\<close> with the bullet U+2022 for \<open>B\<close>, where the full stop is
  code point 46, the hyphen 45, the bullet 8226, and \<^verbatim>\<open>.\<close> is every code point but the newline 10.
\<close>

definition marker_rx :: "ucd \<Rightarrow> rx" where
  "marker_rx U =
     Alt (Seq (Plus (Cls (is_decimal U))) (Seq (Cls (\<lambda>c. c = 46)) (Star (Cls is_space))))
         (Seq (Cls (\<lambda>c. c = 45 \<or> c = 8226)) (Star (Cls is_space)))"

definition body_rx :: rx where
  "body_rx = Seq (Grp (Seq (Star (Cls (\<lambda>c. c \<noteq> 10))) (Cls (\<lambda>c. \<not> is_space c))))
                 (Seq (Star (Cls is_space)) Eos)"

definition line_rx :: "ucd \<Rightarrow> rx" where
  "line_rx U = Seq (Star (Cls is_space)) (Seq (Opt (marker_rx U)) body_rx)"

section \<open>\<^verbatim>\<open>FollowupProposer._parse\<close>\<close>

definition is_header :: "ucd \<Rightarrow> ustr \<Rightarrow> bool" where
  "is_header U t =
     startswith (lower U t) [ustr ''follow-ups'', ustr ''followups'', ustr ''questions:'']"

text \<open>
  The loop over the lines.  \<open>items\<close> and \<open>seen\<close> are the two accumulators of the source; the
  three \<^verbatim>\<open>continue\<close> go to the next line without the length test, \<^verbatim>\<open>break\<close> returns.
  Group 1 is not under the optional part of the pattern, so a match always has it
  (lemma \<open>line_rx_group1\<close> below); the branch for a match without it is never taken.
\<close>

fun parse_loop :: "ucd \<Rightarrow> int \<Rightarrow> ustr list \<Rightarrow> ustr list \<Rightarrow> ustr set \<Rightarrow> ustr list" where
  "parse_loop U k [] items seen = items"
| "parse_loop U k (raw # rest) items seen =
     (case re_match (line_rx U) raw of
        None \<Rightarrow> parse_loop U k rest items seen
      | Some m \<Rightarrow>
          (case group1 m of
             None \<Rightarrow> parse_loop U k rest items seen
           | Some g \<Rightarrow>
               let t = strip g in
               if t = [] then parse_loop U k rest items seen
               else if is_header U t then parse_loop U k rest items seen
               else
                 let items' = (if t \<notin> seen then items @ [t] else items);
                     seen' = (if t \<notin> seen then insert t seen else seen)
                 in if int (length items') \<ge> k then items'
                    else parse_loop U k rest items' seen'))"

definition FollowupProposer_parse :: "ucd \<Rightarrow> ustr \<Rightarrow> int \<Rightarrow> ustr list" where
  "FollowupProposer_parse U text k = parse_loop U k (splitlines text) [] {}"

section \<open>The text generator and the three modules\<close>

datatype error = GenerationFailure | IndexError

text \<open>
  The language model is outside the program: each of the three \<^verbatim>\<open>dspy.Predict\<close> objects is
  a function from its input fields to its output field, or to the exception it raises.
  \<open>followups\<close> may come back as \<^verbatim>\<open>None\<close>.
\<close>

record lm =
  main_answer_p :: "ustr \<Rightarrow> error + ustr"
  propose_followups_p :: "ustr \<Rightarrow> error + ustr option"
  followup_answer_p :: "ustr \<Rightarrow> ustr \<Rightarrow> error + ustr"

text \<open>The calls made to the language model, in the order they are made.\<close>

datatype lm_call =
    MainAnswerSig ustr
  | ProposeFollowupsSig ustr
  | FollowupAnswerSig ustr ustr

definition MainAnswerer_forward :: "lm \<Rightarrow> ustr \<Rightarrow> error + ustr" where
  "MainAnswerer_forward L question = main_answer_p L question"

definition FollowupProposer_forward :: "ucd \<Rightarrow> lm \<Rightarrow> ustr \<Rightarrow> int \<Rightarrow> error + ustr list" where
  "FollowupProposer_forward U L ctx k =
     (case propose_followups_p L ctx of
        Inl e \<Rightarrow> Inl e
      | Inr followups \<Rightarrow>
          let raw = (case followups of None \<Rightarrow> [] | Some r \<Rightarrow> r)
          in Inr (FollowupProposer_parse U raw k))"

definition FollowupAnswerer_forward :: "lm \<Rightarrow> ustr \<Rightarrow> ustr \<Rightarrow> error + ustr" where
  "FollowupAnswerer_forward L base_q fu_q = followup_answer_p L base_q fu_q"

section \<open>\<^verbatim>\<open>OneLayerFastFollow\<close>\<close>

record flow =
  self_k :: int
  self_base :: "ustr option"
  self_menu :: "ustr list"
  self_answers :: "int \<rightharpoonup> ustr"

definition init :: "int \<Rightarrow> flow" where
  "init k_followups =
     \<lparr>self_k = k_followups, self_base = None, self_menu = [], self_answers = Map.empty\<rparr>"

text \<open>\<^verbatim>\<open>str(n)\<close> for a length: the decimal digits.\<close>

fun str_nat :: "nat \<Rightarrow> ustr" where
  "str_nat n = (if n < 10 then [48 + n] else str_nat (n div 10) @ [48 + n mod 10])"

fun join :: "ustr \<Rightarrow> ustr list \<Rightarrow> ustr" where
  "join sep [] = []"
| "join sep [x] = x"
| "join sep (x # y # ys) = x @ sep @ join sep (y # ys)"

definition menu_text :: "flow \<Rightarrow> ustr \<Rightarrow> ustr" where
  "menu_text s title =
     (if self_menu s = [] then []
      else let lines = map (\<lambda>(i, q). str_nat (i + 1) @ ustr ''. '' @ q) (enumerate 0 (self_menu s))
           in [10, 10] @ title @ [58, 10] @ join [10] lines)"

text \<open>
  List indexing with a Python integer: a negative index counts from the end, and an index
  outside the list raises \<^verbatim>\<open>IndexError\<close>.
\<close>

definition list_index :: "'a list \<Rightarrow> int \<Rightarrow> error + 'a" where
  "list_index xs i =
     (if 0 \<le> i \<and> i < int (length xs) then Inr (xs ! nat i)
      else if i < 0 \<and> - int (length xs) \<le> i then Inr (xs ! nat (i + int (length xs)))
      else Inl IndexError)"

text \<open>
  The loop \<^verbatim>\<open>for idx, fu in enumerate(self.menu, start=1)\<close>: \<open>answers\<close> is the dictionary as
  filled so far.  The result is the exception that stopped the loop, if any, the
  dictionary at that moment, and the calls made.
\<close>

fun fill_answers ::
  "lm \<Rightarrow> ustr \<Rightarrow> int \<Rightarrow> ustr list \<Rightarrow> (int \<rightharpoonup> ustr) \<Rightarrow> error option \<times> (int \<rightharpoonup> ustr) \<times> lm_call list"
where
  "fill_answers L base_q idx [] answers = (None, answers, [])"
| "fill_answers L base_q idx (fu # fus) answers =
     (case FollowupAnswerer_forward L base_q fu of
        Inl e \<Rightarrow> (Some e, answers, [FollowupAnswerSig base_q fu])
      | Inr a \<Rightarrow>
          (case fill_answers L base_q (idx + 1) fus (answers(idx \<mapsto> a)) of
             (r, answers', calls) \<Rightarrow> (r, answers', FollowupAnswerSig base_q fu # calls)))"

text \<open>
  Every operation takes the object's state and returns what the call returns or raises,
  the state the object is left in, and the calls made to the language model.
\<close>

definition ask ::
  "ucd \<Rightarrow> lm \<Rightarrow> flow \<Rightarrow> ustr \<Rightarrow> (error + ustr \<times> ustr list) \<times> flow \<times> lm_call list"
where
  "ask U L s question =
     (let s1 = s\<lparr>self_base := Some question\<rparr> in
      (case MainAnswerer_forward L question of
         Inl e \<Rightarrow> (Inl e, s1, [MainAnswerSig question])
       | Inr main_answer \<Rightarrow>
           (let ctx = ustr ''User question: '' @ question @ [10] @ ustr ''Answer: '' @ main_answer in
            (case FollowupProposer_forward U L ctx (self_k s1) of
               Inl e \<Rightarrow> (Inl e, s1, [MainAnswerSig question, ProposeFollowupsSig ctx])
             | Inr new_menu \<Rightarrow>
                 (let s2 = s1\<lparr>self_menu := new_menu\<rparr>;
                      s3 = s2\<lparr>self_answers := Map.empty\<rparr>
                  in (case fill_answers L question 1 (self_menu s3) (self_answers s3) of
                        (Some e, answers, calls) \<Rightarrow>
                          (Inl e, s3\<lparr>self_answers := answers\<rparr>,
                           MainAnswerSig question # ProposeFollowupsSig ctx # calls)
                      | (None, answers, calls) \<Rightarrow>
                          (let s4 = s3\<lparr>self_answers := answers\<rparr>;
                               visible = main_answer @ menu_text s4 (ustr ''Follow-ups'')
                           in (Inr (visible, self_menu s4), s4,
                               MainAnswerSig question # ProposeFollowupsSig ctx # calls))))))))"

definition peek_immediate :: "flow \<Rightarrow> int \<Rightarrow> ustr \<times> flow" where
  "peek_immediate s choice_idx =
     (if \<not> (1 \<le> choice_idx \<and> choice_idx \<le> int (length (self_menu s)))
      then (ustr ''Please choose a number between 1 and '' @ str_nat (length (self_menu s))
              @ ustr ''.'', s)
      else (case self_answers s choice_idx of
              None \<Rightarrow> (ustr ''Sorry, no cached answer found.'', s)
            | Some a \<Rightarrow> (a, s)))"

definition rotate_next_layer ::
  "ucd \<Rightarrow> lm \<Rightarrow> flow \<Rightarrow> int \<Rightarrow> (error + ustr list) \<times> flow \<times> lm_call list"
where
  "rotate_next_layer U L s choice_idx =
     (case list_index (self_menu s) (choice_idx - 1) of
        Inl e \<Rightarrow> (Inl e, s, [])
      | Inr selected_fu \<Rightarrow>
          (let immediate = (case self_answers s choice_idx of None \<Rightarrow> [] | Some a \<Rightarrow> a);
               s1 = s\<lparr>self_base := Some selected_fu\<rparr>;
               ctx = ustr ''Base: '' @ selected_fu @ [10] @ ustr ''Answer: '' @ immediate
           in (case FollowupProposer_forward U L ctx (self_k s1) of
                 Inl e \<Rightarrow> (Inl e, s1, [ProposeFollowupsSig ctx])
               | Inr next_menu \<Rightarrow>
                   (let s2 = s1\<lparr>self_menu := next_menu\<rparr>;
                        s3 = s2\<lparr>self_answers := Map.empty\<rparr>
                    in (case fill_answers L selected_fu 1 (self_menu s3) (self_answers s3) of
                          (Some e, answers, calls) \<Rightarrow>
                            (Inl e, s3\<lparr>self_answers := answers\<rparr>, ProposeFollowupsSig ctx # calls)
                        | (None, answers, calls) \<Rightarrow>
                            (let s4 = s3\<lparr>self_answers := answers\<rparr>
                             in (Inr (self_menu s4), s4, ProposeFollowupsSig ctx # calls)))))))"

text \<open>A run of \<^verbatim>\<open>rotate_next_layer\<close> calls, each with the language model as it answers
  during that call and the index chosen; the run stops at the first call that raises.\<close>

fun rotations :: "ucd \<Rightarrow> flow \<Rightarrow> (lm \<times> int) list \<Rightarrow> error + flow" where
  "rotations U s [] = Inr s"
| "rotations U s ((L, choice_idx) # rest) =
     (case rotate_next_layer U L s choice_idx of
        (Inl e, _, _) \<Rightarrow> Inl e
      | (Inr _, s', _) \<Rightarrow> rotations U s' rest)"

text \<open>The two context strings and the \<^verbatim>\<open>self.answers.get(choice_idx, "")\<close> of
  \<^verbatim>\<open>rotate_next_layer\<close>, as written in \<open>ask\<close> and \<open>rotate_next_layer\<close> above.\<close>

abbreviation ask_ctx :: "ustr \<Rightarrow> ustr \<Rightarrow> ustr" where
  "ask_ctx question main_answer \<equiv>
     ustr ''User question: '' @ question @ [10] @ ustr ''Answer: '' @ main_answer"

abbreviation rotate_ctx :: "ustr \<Rightarrow> ustr \<Rightarrow> ustr" where
  "rotate_ctx selected_fu immediate \<equiv>
     ustr ''Base: '' @ selected_fu @ [10] @ ustr ''Answer: '' @ immediate"

abbreviation cached :: "flow \<Rightarrow> int \<Rightarrow> ustr" where
  "cached s i \<equiv> (case self_answers s i of None \<Rightarrow> [] | Some a \<Rightarrow> a)"

section \<open>What the pattern computes\<close>

text \<open>
  The result of the match, written without backtracking.  After the leading whitespace, a
  numbered marker is a non-empty run of decimal digits and a full stop, a bulleted marker
  is a hyphen or a bullet; either may be followed by whitespace.  \<open>numbered_rest\<close> and
  \<open>bulleted_rest\<close> are the text after such a marker and the whitespace behind it, or empty
  when there is no such marker or nothing but whitespace follows it.  Group 1 needs a
  character that is not whitespace, so a marker with nothing behind it is not taken as a
  marker: the pattern then matches with the optional part empty.
\<close>

definition rstrip :: "ustr \<Rightarrow> ustr" where
  "rstrip s = rev (dropWhile is_space (rev s))"

definition numbered_rest :: "ucd \<Rightarrow> ustr \<Rightarrow> ustr" where
  "numbered_rest U s =
     (case dropWhile (is_decimal U) s of
        [] \<Rightarrow> []
      | c # r \<Rightarrow> if c = 46 \<and> s \<noteq> c # r then dropWhile is_space r else [])"

definition bulleted_rest :: "ustr \<Rightarrow> ustr" where
  "bulleted_rest s =
     (case s of
        [] \<Rightarrow> []
      | c # r \<Rightarrow> if c = 45 \<or> c = 8226 then dropWhile is_space r else [])"

definition after_marker :: "ucd \<Rightarrow> ustr \<Rightarrow> ustr option" where
  "after_marker U s =
     (if numbered_rest U s \<noteq> [] then Some (numbered_rest U s)
      else if bulleted_rest s \<noteq> [] then Some (bulleted_rest s)
      else None)"

definition line_text :: "ucd \<Rightarrow> ustr \<Rightarrow> ustr option" where
  "line_text U raw =
     (let s = dropWhile is_space raw in
      if s = [] then None
      else Some (rstrip (case after_marker U s of None \<Rightarrow> s | Some r \<Rightarrow> r)))"

text \<open>Notions for the proofs about the matcher: the states a starred class leaves, from
  the longest run down; the tails behind the characters of a class, last one first; the
  head of a list of results.\<close>

fun sufs :: "(nat \<Rightarrow> bool) \<Rightarrow> ustr \<Rightarrow> ustr list" where
  "sufs p [] = [[]]"
| "sufs p (c # cs) = (if p c then sufs p cs @ [c # cs] else [c # cs])"

fun tails_after :: "(nat \<Rightarrow> bool) \<Rightarrow> ustr \<Rightarrow> ustr list" where
  "tails_after p [] = []"
| "tails_after p (c # cs) = tails_after p cs @ (if p c then [cs] else [])"

definition first :: "'a list \<Rightarrow> 'a option" where
  "first xs = (case xs of [] \<Rightarrow> None | x # _ \<Rightarrow> Some x)"

section \<open>The parser, line by line\<close>

text \<open>
  What one line contributes to the menu: the part of the loop body before the duplicate
  test, that is the match, the \<^verbatim>\<open>strip\<close> and the two tests that \<^verbatim>\<open>continue\<close>.
\<close>

definition candidate :: "ucd \<Rightarrow> ustr \<Rightarrow> ustr option" where
  "candidate U raw =
     (case re_match (line_rx U) raw of
        None \<Rightarrow> None
      | Some m \<Rightarrow>
          (case group1 m of
             None \<Rightarrow> None
           | Some g \<Rightarrow>
               let t = strip g in
               if t = [] then None
               else if is_header U t then None
               else Some t))"

text \<open>The loop of \<open>parse_loop\<close> over any function from a line to its contribution.\<close>

fun parse_lines ::
  "(ustr \<Rightarrow> ustr option) \<Rightarrow> int \<Rightarrow> ustr list \<Rightarrow> ustr list \<Rightarrow> ustr set \<Rightarrow> ustr list"
where
  "parse_lines f k [] items seen = items"
| "parse_lines f k (raw # rest) items seen =
     (case f raw of
        None \<Rightarrow> parse_lines f k rest items seen
      | Some t \<Rightarrow>
          let items' = (if t \<notin> seen then items @ [t] else items);
              seen' = (if t \<notin> seen then insert t seen else seen)
          in if int (length items') \<ge> k then items'
             else parse_lines f k rest items' seen')"

text \<open>A list without the later occurrences of its elements.\<close>

definition first_occurrences :: "'a list \<Rightarrow> 'a list" where
  "first_occurrences xs = rev (remdups (rev xs))"

text \<open>
  The contribution of a line, from what the pattern computes: the text of the line
  without its marker and the whitespace around, unless that text is a header.
\<close>

definition described_line :: "ucd \<Rightarrow> ustr \<Rightarrow> ustr option" where
  "described_line U raw =
     (case line_text U raw of
        None \<Rightarrow> None
      | Some t \<Rightarrow> if is_header U t then None else Some t)"

text \<open>What holds of every question that the parser returns: it has no whitespace at
  either end, no line boundary inside, and is not a header.\<close>

definition valid_item :: "ucd \<Rightarrow> ustr \<Rightarrow> bool" where
  "valid_item U t \<longleftrightarrow>
     t \<noteq> [] \<and> \<not> is_space (hd t) \<and> \<not> is_space (last t) \<and>
     list_all (\<lambda>c. \<not> is_linebreak c) t \<and> \<not> is_header U t"

text \<open>Line \<open>i\<close> (from 0) of the rendered menu, as \<open>menu_text\<close> writes it.\<close>

definition numbered_line :: "nat \<Rightarrow> ustr \<Rightarrow> ustr" where
  "numbered_line i q = str_nat (i + 1) @ ustr ''. '' @ q"

section \<open>The parser as the specification words it\<close>

text \<open>
  Following the spec's words: each line has its optional leading enumeration marker
  stripped, is trimmed, is skipped when empty after stripping, and is discarded when it
  begins with a header phrase.  A marker is one or more digits followed by a full stop and
  whitespace, or a hyphen or bullet followed by whitespace: in both cases at least one
  whitespace character stands behind the full stop or the bullet, and all the whitespace
  there goes with the marker.
\<close>

definition spec_strip_bullet :: "ustr \<Rightarrow> ustr" where
  "spec_strip_bullet s =
     (case s of
        c # w # r \<Rightarrow> if (c = 45 \<or> c = 8226) \<and> is_space w then dropWhile is_space r else s
      | _ \<Rightarrow> s)"

definition spec_strip_marker :: "ucd \<Rightarrow> ustr \<Rightarrow> ustr" where
  "spec_strip_marker U s =
     (case dropWhile (is_decimal U) s of
        c # w # r \<Rightarrow>
          if c = 46 \<and> s \<noteq> c # w # r \<and> is_space w then dropWhile is_space r
          else spec_strip_bullet s
      | _ \<Rightarrow> spec_strip_bullet s)"

definition spec_line :: "ucd \<Rightarrow> ustr \<Rightarrow> ustr option" where
  "spec_line U raw =
     (let t = strip (spec_strip_marker U (dropWhile is_space raw)) in
      if t = [] then None
      else if is_header U t then None
      else Some t)"

definition spec_parse :: "ucd \<Rightarrow> ustr \<Rightarrow> int \<Rightarrow> ustr list" where
  "spec_parse U text k = parse_lines (spec_line U) k (splitlines text) [] {}"

section \<open>The parser with the whitespace behind a marker optional\<close>






section \<open>Example data\<close>

text \<open>Unicode tables with nothing beyond ASCII: no other digits, no other case mapping.\<close>

definition ascii_ucd :: ucd where
  "ascii_ucd = \<lparr>decimal_tab = (\<lambda>_. False), lower_tab = (\<lambda>s. s)\<rparr>"

text \<open>A conversation with a menu of three follow-ups and their cached answers.\<close>

definition three :: flow where
  "three = \<lparr>self_k = 4, self_base = Some (ustr ''Q''),
            self_menu = [ustr ''A'', ustr ''B'', ustr ''C''],
            self_answers = [1 \<mapsto> ustr ''a'', 2 \<mapsto> ustr ''b'', 3 \<mapsto> ustr ''c'']\<rparr>"


definition steady_lm :: lm where
  "steady_lm =
     \<lparr>main_answer_p = (\<lambda>question. Inr (ustr ''M'')),
      propose_followups_p = (\<lambda>ctx. Inr (Some (ustr ''1. X'' @ [10] @ ustr ''2. Y''))),
      followup_answer_p = (\<lambda>base_q fu_q. Inr (base_q @ ustr ''/'' @ fu_q))\<rparr>"

definition silent_lm :: lm where
  "silent_lm =
     \<lparr>main_answer_p = (\<lambda>question. Inr (ustr ''M'')),
      propose_followups_p = (\<lambda>ctx. Inr None),
      followup_answer_p = (\<lambda>base_q fu_q. Inr (ustr ''x''))\<rparr>"

text \<open>The states that the examples reach from \<open>three\<close> and from a fresh object.\<close>

definition half_done :: flow where
  "half_done = \<lparr>self_k = 4, self_base = Some (ustr ''A''), self_menu = [ustr ''X'', ustr ''Y''],
                 self_answers = [1 \<mapsto> ustr ''x'']\<rparr>"

definition asked :: flow where
  "asked = \<lparr>self_k = 4, self_base = Some (ustr ''Q''), self_menu = [ustr ''X'', ustr ''Y''],
             self_answers = [1 \<mapsto> ustr ''Q/X'', 2 \<mapsto> ustr ''Q/Y'']\<rparr>"

definition rotated :: flow where
  "rotated = \<lparr>self_k = 4, self_base = Some (ustr ''Y''), self_menu = [ustr ''X'', ustr ''Y''],
               self_answers = [1 \<mapsto> ustr ''Y/X'', 2 \<mapsto> ustr ''Y/Y'']\<rparr>"

declare str_nat.simps [simp del]

section \<open>The matcher on the pattern of the parser\<close>

declare rx_run.simps [simp del]

lemmas rx_simps = rx_run.simps(1-5,7)

lemma first_simps [simp]:
  "first [] = None" "first (x # xs) = Some x"
  by (simp_all add: first_def)

lemma first_append: "first (xs @ ys) = (case first xs of None \<Rightarrow> first ys | Some v \<Rightarrow> Some v)"
  by (cases xs) simp_all

lemma first_None_iff: "first xs = None \<longleftrightarrow> xs = []"
  by (cases xs) simp_all

lemma concat_map_empty: "(\<And>x. x \<in> set xs \<Longrightarrow> f x = []) \<Longrightarrow> concat (map f xs) = []"
  by (induction xs) simp_all

subsection \<open>Star of a class\<close>

lemma rx_star_cls: "rx_run (Star (Cls p)) (s, g) = map (\<lambda>r. (r, g)) (sufs p s)"
proof (induction s)
  case Nil
  show ?case by (subst rx_run.simps(6)) (simp add: rx_simps)
next
  case (Cons c cs)
  show ?case by (subst rx_run.simps(6)) (simp add: rx_simps Cons.IH)
qed

lemma sufs_head: "\<exists>rest. sufs p s = dropWhile p s # rest"
  by (induction s) auto

lemma sufs_suffix: "r \<in> set (sufs p s) \<Longrightarrow> suffix r s"
  by (induction s) (auto simp: suffix_Cons split: if_splits)

lemma sufs_other: "r \<in> set (sufs p s) \<Longrightarrow> r = dropWhile p s \<or> (\<exists>c r'. r = c # r' \<and> p c)"
  by (induction s) (auto split: if_splits)

lemma sufs_keeps: "r \<in> set (sufs p s) \<Longrightarrow> suffix (dropWhile p s) r"
  by (induction s) (auto simp: suffix_Cons suffix_dropWhile split: if_splits)

lemma sufs_all: "\<forall>c \<in> set s. p c \<Longrightarrow> sufs p s = suffixes s"
  by (induction s) simp_all

subsection \<open>The end of the line\<close>

lemma rx_end_all_space:
  assumes "\<forall>c \<in> set r. is_space c"
  shows "first (rx_run (Seq (Star (Cls is_space)) Eos) (r, h)) = Some ([], h)"
proof -
  from assms have "dropWhile is_space r = []" by simp
  with sufs_head [of is_space r] obtain rest where "sufs is_space r = [] # rest" by auto
  then show ?thesis by (simp add: rx_simps rx_star_cls)
qed

lemma rx_end_not_space:
  assumes "\<not> (\<forall>c \<in> set r. is_space c)"
  shows "rx_run (Seq (Star (Cls is_space)) Eos) (r, h) = []"
proof -
  from assms have ne: "dropWhile is_space r \<noteq> []" by (simp add: dropWhile_eq_Nil_conv)
  then have hd: "\<not> is_space (hd (dropWhile is_space r))" by (rule hd_dropWhile)
  have "rx_run Eos (r', h) = []" if "r' \<in> set (sufs is_space r)" for r'
  proof -
    from sufs_keeps [OF that] obtain pre where r': "r' = pre @ dropWhile is_space r"
      by (auto simp: suffix_def)
    from ne obtain c d where d: "dropWhile is_space r = c # d" by (cases "dropWhile is_space r") auto
    with hd have "\<not> is_space c" by simp
    moreover have "is_space 10" by (simp add: is_space_def)
    ultimately have "c \<noteq> 10" by auto
    with r' d have "r' \<noteq> [] \<and> r' \<noteq> [10]"
      by (cases pre) (auto simp: Cons_eq_append_conv)
    then show ?thesis by (simp add: rx_simps)
  qed
  then show ?thesis by (simp add: rx_simps rx_star_cls comp_def concat_map_empty)
qed

subsection \<open>The body \<^verbatim>\<open>(.*\S)\s*$\<close>\<close>

lemma rx_any_nonspace:
  "10 \<notin> set x \<Longrightarrow>
   rx_run (Seq (Star (Cls (\<lambda>c. c \<noteq> 10))) (Cls (\<lambda>c. \<not> is_space c))) (x, g) =
     map (\<lambda>r. (r, g)) (tails_after (\<lambda>c. \<not> is_space c) x)"
proof (induction x)
  case Nil
  show ?case by (simp add: rx_simps rx_star_cls)
next
  case (Cons c cs)
  then have "10 \<notin> set cs" "c \<noteq> 10" by auto
  with Cons.IH show ?case by (simp add: rx_simps rx_star_cls)
qed

lemma tails_after_none: "\<forall>c \<in> set x. \<not> p c \<Longrightarrow> tails_after p x = []"
  by (induction x) simp_all

lemma tails_after_last:
  "p c \<Longrightarrow> \<forall>d \<in> set w. \<not> p d \<Longrightarrow> \<exists>rest. tails_after p (a @ c # w) = w # rest"
  by (induction a) (auto simp: tails_after_none)

lemma rstrip_last:
  "\<not> is_space c \<Longrightarrow> \<forall>d \<in> set w. is_space d \<Longrightarrow> rstrip (a @ c # w) = a @ [c]"
  by (simp add: rstrip_def dropWhile_append)

lemma rx_body_none:
  assumes "\<forall>c \<in> set x. is_space c" and "10 \<notin> set x"
  shows "rx_run body_rx (x, g) = []"
  using assms
  by (simp add: body_rx_def rx_run.simps(4) [of "Grp _"] rx_run.simps(7) rx_any_nonspace
        tails_after_none)

lemma rx_body_first:
  assumes ns: "\<not> (\<forall>c \<in> set x. is_space c)" and nl: "10 \<notin> set x"
  shows "first (rx_run body_rx (x, g)) = Some ([], Some (rstrip x))"
proof -
  from ns have "\<exists>c \<in> set x. \<not> is_space c" by simp
  then obtain a c w where x: "x = a @ c # w" and c: "\<not> is_space c"
    and w: "\<forall>d \<in> set w. \<not> \<not> is_space d"
    by (rule split_list_last_propE)
  from w have w': "\<forall>d \<in> set w. is_space d" by simp
  from tails_after_last [of "\<lambda>c. \<not> is_space c" c w a] c w
  obtain rest where t: "tails_after (\<lambda>c. \<not> is_space c) x = w # rest"
    using x by auto
  have cap: "take (length x - length w) x = rstrip x"
    using x c w' by (simp add: rstrip_last)
  have "rx_run body_rx (x, g) =
          rx_run (Seq (Star (Cls is_space)) Eos) (w, Some (rstrip x)) @
          concat (map (rx_run (Seq (Star (Cls is_space)) Eos))
                      (map (\<lambda>r. (r, Some (take (length x - length r) x))) rest))"
    using nl t cap
    by (simp add: body_rx_def rx_run.simps(4) [of "Grp _"] rx_run.simps(7) rx_any_nonspace comp_def)
  then show ?thesis
    using rx_end_all_space [OF w', of "Some (rstrip x)"] by (simp add: first_append)
qed

subsection \<open>The marker\<close>

lemma sufs_split:
  "\<exists>rest. sufs p s = dropWhile p s # rest \<and> (\<forall>r \<in> set rest. \<exists>c r'. r = c # r' \<and> p c)"
  by (induction s) auto

lemma is_decimal_46 [simp]: "\<not> is_decimal U 46"
  by (simp add: is_decimal_def)

lemma rx_dot_star:
  "rx_run (Seq (Cls (\<lambda>c. c = 46)) (Star (Cls is_space))) (r, g) =
     (case r of [] \<Rightarrow> [] | c # r' \<Rightarrow> if c = 46 then map (\<lambda>t. (t, g)) (sufs is_space r') else [])"
  by (cases r) (simp_all add: rx_simps rx_star_cls)

lemma rx_numbered:
  "rx_run (Seq (Plus (Cls (is_decimal U))) (Seq (Cls (\<lambda>c. c = 46)) (Star (Cls is_space)))) (x, g) =
     (case dropWhile (is_decimal U) x of
        [] \<Rightarrow> []
      | c # r \<Rightarrow> if c = 46 \<and> x \<noteq> c # r then map (\<lambda>t. (t, g)) (sufs is_space r) else [])"
proof (cases x)
  case Nil
  then show ?thesis by (simp add: Plus_def rx_simps)
next
  case (Cons c cs)
  show ?thesis
  proof (cases "is_decimal U c")
    case False
    with Cons show ?thesis by (simp add: Plus_def rx_simps split: list.splits)
  next
    case True
    let ?f = "rx_run (Seq (Cls (\<lambda>c. c = 46)) (Star (Cls is_space)))"
    obtain rest where rest: "sufs (is_decimal U) cs = dropWhile (is_decimal U) cs # rest"
      and others: "\<forall>r \<in> set rest. \<exists>c r'. r = c # r' \<and> is_decimal U c"
      using sufs_split [of "is_decimal U" cs] by blast
    have "?f (r, g) = []" if "r \<in> set rest" for r
    proof -
      from others that obtain d r' where "r = d # r'" "is_decimal U d" by blast
      moreover from this have "d \<noteq> 46" by auto
      ultimately show ?thesis by (simp add: rx_dot_star)
    qed
    then have tail: "concat (map (\<lambda>r. ?f (r, g)) rest) = []"
      by (rule concat_map_empty)
    have run: "rx_run (Seq (Plus (Cls (is_decimal U))) (Seq (Cls (\<lambda>c. c = 46)) (Star (Cls is_space)))) (x, g)
            = ?f (dropWhile (is_decimal U) cs, g)"
      using Cons True rest tail
      by (simp add: Plus_def rx_run.simps(4) [of "Seq _ _"] rx_run.simps(4) [of "Cls _" "Star _"]
            rx_run.simps(1) rx_star_cls comp_def)
    have shorter: "x \<noteq> dropWhile (is_decimal U) cs"
    proof
      assume "x = dropWhile (is_decimal U) cs"
      then have "length x \<le> length cs" by (metis length_dropWhile_le)
      with Cons show False by simp
    qed
    have dw: "dropWhile (is_decimal U) x = dropWhile (is_decimal U) cs"
      using Cons True by simp
    show ?thesis
    proof (cases "dropWhile (is_decimal U) cs")
      case Nil
      show ?thesis unfolding run dw rx_dot_star Nil by simp
    next
      case d: (Cons d r)
      with shorter have "x \<noteq> d # r" by simp
      then show ?thesis unfolding run dw rx_dot_star d by simp
    qed
  qed
qed

lemma rx_bulleted:
  "rx_run (Seq (Cls (\<lambda>c. c = 45 \<or> c = 8226)) (Star (Cls is_space))) (x, g) =
     (case x of
        [] \<Rightarrow> []
      | c # r \<Rightarrow> if c = 45 \<or> c = 8226 then map (\<lambda>t. (t, g)) (sufs is_space r) else [])"
  by (cases x) (simp_all add: rx_simps rx_star_cls)

lemma rx_space_then_body:
  assumes nl: "10 \<notin> set r"
  shows "(dropWhile is_space r \<noteq> [] \<longrightarrow>
            first (concat (map (rx_run body_rx) (map (\<lambda>t. (t, g)) (sufs is_space r)))) =
              Some ([], Some (rstrip (dropWhile is_space r))))
       \<and> (dropWhile is_space r = [] \<longrightarrow>
            concat (map (rx_run body_rx) (map (\<lambda>t. (t, g)) (sufs is_space r))) = [])"
proof (intro conjI impI)
  assume ne: "dropWhile is_space r \<noteq> []"
  obtain rest where rest: "sufs is_space r = dropWhile is_space r # rest"
    using sufs_head by blast
  from ne have "\<not> is_space (hd (dropWhile is_space r))" by (rule hd_dropWhile)
  with ne have "\<not> (\<forall>c \<in> set (dropWhile is_space r). is_space c)"
    by (cases "dropWhile is_space r") auto
  moreover from nl have "10 \<notin> set (dropWhile is_space r)"
    by (auto dest: set_dropWhileD)
  ultimately have "first (rx_run body_rx (dropWhile is_space r, g)) =
      Some ([], Some (rstrip (dropWhile is_space r)))"
    by (rule rx_body_first)
  then show "first (concat (map (rx_run body_rx) (map (\<lambda>t. (t, g)) (sufs is_space r)))) =
              Some ([], Some (rstrip (dropWhile is_space r)))"
    by (simp add: rest first_append)
next
  assume "dropWhile is_space r = []"
  then have sp: "\<forall>c \<in> set r. is_space c" by (simp add: dropWhile_eq_Nil_conv)
  have "rx_run body_rx (t, g) = []" if "t \<in> set (sufs is_space r)" for t
  proof -
    from sufs_suffix [OF that] have "set t \<subseteq> set r" by (rule set_mono_suffix)
    with sp nl have "\<forall>c \<in> set t. is_space c" "10 \<notin> set t" by auto
    then show ?thesis by (rule rx_body_none)
  qed
  then show "concat (map (rx_run body_rx) (map (\<lambda>t. (t, g)) (sufs is_space r))) = []"
    by (simp add: comp_def concat_map_empty)
qed

subsection \<open>The whole pattern\<close>

lemma rx_numbered_body:
  assumes nl: "10 \<notin> set x"
  shows "(numbered_rest U x \<noteq> [] \<longrightarrow>
            first (concat (map (rx_run body_rx)
              (rx_run (Seq (Plus (Cls (is_decimal U)))
                           (Seq (Cls (\<lambda>c. c = 46)) (Star (Cls is_space)))) (x, g)))) =
              Some ([], Some (rstrip (numbered_rest U x))))
       \<and> (numbered_rest U x = [] \<longrightarrow>
            concat (map (rx_run body_rx)
              (rx_run (Seq (Plus (Cls (is_decimal U)))
                           (Seq (Cls (\<lambda>c. c = 46)) (Star (Cls is_space)))) (x, g))) = [])"
proof (cases "dropWhile (is_decimal U) x")
  case Nil
  show ?thesis unfolding rx_numbered numbered_rest_def Nil by simp
next
  case (Cons c r)
  show ?thesis
  proof (cases "c = 46 \<and> x \<noteq> c # r")
    case False
    then show ?thesis unfolding rx_numbered numbered_rest_def Cons by auto
  next
    case True
    have "set r \<subseteq> set x"
      using Cons set_dropWhileD [of _ "is_decimal U" x] by auto
    with nl have "10 \<notin> set r" by auto
    from rx_space_then_body [OF this, of g] True
    show ?thesis unfolding rx_numbered numbered_rest_def Cons by auto
  qed
qed

lemma rx_bulleted_body:
  assumes nl: "10 \<notin> set x"
  shows "(bulleted_rest x \<noteq> [] \<longrightarrow>
            first (concat (map (rx_run body_rx)
              (rx_run (Seq (Cls (\<lambda>c. c = 45 \<or> c = 8226)) (Star (Cls is_space))) (x, g)))) =
              Some ([], Some (rstrip (bulleted_rest x))))
       \<and> (bulleted_rest x = [] \<longrightarrow>
            concat (map (rx_run body_rx)
              (rx_run (Seq (Cls (\<lambda>c. c = 45 \<or> c = 8226)) (Star (Cls is_space))) (x, g))) = [])"
proof (cases x)
  case Nil
  show ?thesis unfolding rx_bulleted bulleted_rest_def Nil by simp
next
  case (Cons c r)
  show ?thesis
  proof (cases "c = 45 \<or> c = 8226")
    case False
    then show ?thesis unfolding rx_bulleted bulleted_rest_def Cons by auto
  next
    case True
    from nl Cons have "10 \<notin> set r" by auto
    from rx_space_then_body [OF this, of g] True
    show ?thesis unfolding rx_bulleted bulleted_rest_def Cons by auto
  qed
qed

lemma rx_marker_body_unfold:
  "rx_run (Seq (Opt (marker_rx U)) body_rx) (x, g) =
     concat (map (rx_run body_rx)
       (rx_run (Seq (Plus (Cls (is_decimal U)))
                    (Seq (Cls (\<lambda>c. c = 46)) (Star (Cls is_space)))) (x, g))) @
     concat (map (rx_run body_rx)
       (rx_run (Seq (Cls (\<lambda>c. c = 45 \<or> c = 8226)) (Star (Cls is_space))) (x, g))) @
     rx_run body_rx (x, g)"
  by (simp add: Opt_def marker_rx_def rx_run.simps(4) [of "Alt _ _"] rx_run.simps(5)
        rx_run.simps(2))

lemma first_of_three:
  assumes "(n \<noteq> [] \<longrightarrow> first P1 = Some (v n)) \<and> (n = [] \<longrightarrow> P1 = [])"
    and "(b \<noteq> [] \<longrightarrow> first P2 = Some (v b)) \<and> (b = [] \<longrightarrow> P2 = [])"
    and "first P3 = Some (v x)"
  shows "first (P1 @ P2 @ P3) = Some (v (if n \<noteq> [] then n else if b \<noteq> [] then b else x))"
  using assms by (auto simp: first_append)

lemma none_of_three:
  assumes "(n \<noteq> [] \<longrightarrow> first P1 = Some (v n)) \<and> (n = [] \<longrightarrow> P1 = [])"
    and "(b \<noteq> [] \<longrightarrow> first P2 = Some (v b)) \<and> (b = [] \<longrightarrow> P2 = [])"
    and "P3 = []" and "n = []" and "b = []"
  shows "P1 @ P2 @ P3 = []"
  using assms by simp

lemma rx_marker_body_first:
  assumes ns: "\<not> (\<forall>c \<in> set x. is_space c)" and nl: "10 \<notin> set x"
  shows "first (rx_run (Seq (Opt (marker_rx U)) body_rx) (x, g)) =
           Some ([], Some (rstrip (case after_marker U x of None \<Rightarrow> x | Some r \<Rightarrow> r)))"
proof -
  have "(case after_marker U x of None \<Rightarrow> x | Some r \<Rightarrow> r) =
        (if numbered_rest U x \<noteq> [] then numbered_rest U x
         else if bulleted_rest x \<noteq> [] then bulleted_rest x else x)"
    by (simp add: after_marker_def)
  then show ?thesis
    unfolding rx_marker_body_unfold
    using first_of_three [where v = "\<lambda>t. ([], Some (rstrip t))",
            OF rx_numbered_body [OF nl, of U g] rx_bulleted_body [OF nl, of g]
               rx_body_first [OF ns nl, of g]]
    by simp
qed

lemma numbered_rest_space: "\<forall>c \<in> set x. is_space c \<Longrightarrow> numbered_rest U x = []"
proof -
  assume sp: "\<forall>c \<in> set x. is_space c"
  show ?thesis
  proof (cases "dropWhile (is_decimal U) x")
    case Nil
    show ?thesis unfolding numbered_rest_def Nil by simp
  next
    case (Cons c r)
    then have "set r \<subseteq> set x" using set_dropWhileD [of _ "is_decimal U" x] by auto
    with sp have "dropWhile is_space r = []" by auto
    then show ?thesis unfolding numbered_rest_def Cons by simp
  qed
qed

lemma bulleted_rest_space: "\<forall>c \<in> set x. is_space c \<Longrightarrow> bulleted_rest x = []"
  by (cases x) (simp_all add: bulleted_rest_def)

lemma rx_marker_body_none:
  assumes sp: "\<forall>c \<in> set x. is_space c" and nl: "10 \<notin> set x"
  shows "rx_run (Seq (Opt (marker_rx U)) body_rx) (x, g) = []"
  unfolding rx_marker_body_unfold
  by (rule none_of_three [where v = "\<lambda>t. ([], Some (rstrip t))",
        OF rx_numbered_body [OF nl, of U g] rx_bulleted_body [OF nl, of g]
           rx_body_none [OF sp nl, of g] numbered_rest_space [OF sp, of U]
           bulleted_rest_space [OF sp]])

lemma rx_line_unfold:
  "rx_run (line_rx U) (raw, g) =
     concat (map (rx_run (Seq (Opt (marker_rx U)) body_rx)) (map (\<lambda>t. (t, g)) (sufs is_space raw)))"
  by (simp add: line_rx_def rx_run.simps(4) [of "Star _"] rx_star_cls)

lemma re_match_line:
  assumes nl: "10 \<notin> set raw"
  shows "re_match (line_rx U) raw =
           (case line_text U raw of None \<Rightarrow> None | Some t \<Rightarrow> Some ([], Some t))"
proof (cases "dropWhile is_space raw = []")
  case True
  then have sp: "\<forall>c \<in> set raw. is_space c" by (simp add: dropWhile_eq_Nil_conv)
  have "rx_run (Seq (Opt (marker_rx U)) body_rx) (t, None) = []"
    if "t \<in> set (sufs is_space raw)" for t
  proof -
    from sufs_suffix [OF that] have "set t \<subseteq> set raw" by (rule set_mono_suffix)
    with sp nl have "\<forall>c \<in> set t. is_space c" "10 \<notin> set t" by auto
    then show ?thesis by (rule rx_marker_body_none)
  qed
  then have "rx_run (line_rx U) (raw, None) = []"
    by (simp add: rx_line_unfold comp_def concat_map_empty)
  with True show ?thesis by (simp add: re_match_def line_text_def)
next
  case False
  let ?x = "dropWhile is_space raw"
  obtain rest where rest: "sufs is_space raw = ?x # rest"
    using sufs_head by blast
  from False have "\<not> is_space (hd ?x)" by (rule hd_dropWhile)
  with False have ns: "\<not> (\<forall>c \<in> set ?x. is_space c)" by (cases ?x) auto
  from nl have nl': "10 \<notin> set ?x" by (auto dest: set_dropWhileD)
  have "first (rx_run (line_rx U) (raw, None)) =
          Some ([], Some (rstrip (case after_marker U ?x of None \<Rightarrow> ?x | Some r \<Rightarrow> r)))"
    using rx_marker_body_first [OF ns nl', of U None]
    by (simp add: rx_line_unfold rest first_append)
  with False show ?thesis
    by (simp add: re_match_def line_text_def first_def Let_def split: list.splits)
qed

section \<open>The loop of the parser\<close>

lemma parse_loop_lines:
  "parse_loop U k ls items seen = parse_lines (candidate U) k ls items seen"
  by (induction ls arbitrary: items seen)
     (simp_all add: candidate_def Let_def split: option.splits)

lemma first_occurrences_snoc:
  "first_occurrences (xs @ [x]) =
     (if x \<in> set xs then first_occurrences xs else first_occurrences xs @ [x])"
  by (simp add: first_occurrences_def)

lemma first_occurrences_distinct: "distinct xs \<Longrightarrow> first_occurrences xs = xs"
  by (simp add: first_occurrences_def distinct_remdups_id)

lemma remdups_split:
  "remdups (xs @ ys) = remdups (filter (\<lambda>x. x \<notin> set ys) xs) @ remdups ys"
  by (induction xs) auto

lemma first_occurrences_append:
  "first_occurrences (xs @ ys) =
     first_occurrences xs @ first_occurrences (filter (\<lambda>y. y \<notin> set xs) ys)"
  by (simp add: first_occurrences_def remdups_split [of "rev ys" "rev xs"] rev_filter)

lemma first_occurrences_seen:
  "t \<in> set xs \<Longrightarrow> first_occurrences (xs @ t # ys) = first_occurrences (xs @ ys)"
  by (simp add: first_occurrences_append)

lemma distinct_first_occurrences [simp]: "distinct (first_occurrences xs)"
  by (simp add: first_occurrences_def)

lemma set_first_occurrences [simp]: "set (first_occurrences xs) = set xs"
  by (simp add: first_occurrences_def)

lemma parse_lines_first_occurrences:
  "distinct items \<Longrightarrow> int (length items) < k \<Longrightarrow>
   parse_lines f k ls items (set items) =
     take (nat k) (first_occurrences (items @ List.map_filter f ls))"
proof (induction ls arbitrary: items)
  case Nil
  then show ?case by (simp add: List.map_filter_simps first_occurrences_distinct)
next
  case (Cons raw rest)
  show ?case
  proof (cases "f raw")
    case None
    with Cons show ?thesis by (simp add: List.map_filter_simps)
  next
    case (Some t)
    show ?thesis
    proof (cases "t \<in> set items")
      case True
      with Some Cons show ?thesis
        by (simp add: List.map_filter_simps first_occurrences_seen)
    next
      case False
      let ?items = "items @ [t]"
      have d: "distinct ?items" using False Cons.prems by simp
      show ?thesis
      proof (cases "int (length ?items) \<ge> k")
        case True
        with Cons.prems(2) have k: "nat k = length ?items" by simp
        have "first_occurrences (?items @ List.map_filter f rest) =
                ?items @ first_occurrences (filter (\<lambda>y. y \<notin> set ?items) (List.map_filter f rest))"
          using first_occurrences_append [of ?items "List.map_filter f rest"]
                first_occurrences_distinct [OF d] by simp
        then have "take (nat k) (first_occurrences (?items @ List.map_filter f rest)) = ?items"
          using k by simp
        with Some False True show ?thesis by (simp add: List.map_filter_simps)
      next
        case big: False
        then have "int (length ?items) < k" by simp
        from Cons.IH [OF d this] Some False big show ?thesis
          by (simp add: List.map_filter_simps)
      qed
    qed
  qed
qed

lemma parse_first_occurrences:
  "0 < k \<Longrightarrow>
   FollowupProposer_parse U text k =
     take (nat k) (first_occurrences (List.map_filter (candidate U) (splitlines text)))"
  using parse_lines_first_occurrences [of "[]" k "candidate U" "splitlines text"]
  by (simp add: FollowupProposer_parse_def parse_loop_lines)

subsection \<open>Lines\<close>

lemma splitlines_from_no_linebreak:
  "l \<in> set (splitlines_from cur s) \<Longrightarrow> \<forall>c \<in> set cur. \<not> is_linebreak c \<Longrightarrow>
   \<forall>c \<in> set l. \<not> is_linebreak c"
proof (induction cur s rule: splitlines_from.induct)
  case (1 cur)
  then show ?case by (cases "cur = []") simp_all
next
  case (2 cur c)
  then show ?case by (cases "is_linebreak c") simp_all
next
  case (3 cur c d cs)
  note mem = \<open>l \<in> set (splitlines_from cur (c # d # cs))\<close>
  note cur = \<open>\<forall>c \<in> set cur. \<not> is_linebreak c\<close>
  show ?case
  proof (cases "c = 13 \<and> d = 10")
    case True
    with mem have "l = cur \<or> l \<in> set (splitlines_from [] cs)" by simp
    then show ?thesis
    proof
      assume "l = cur"
      with cur show ?thesis by simp
    next
      assume "l \<in> set (splitlines_from [] cs)"
      with True show ?thesis by (intro "3.IH"(1)) simp_all
    qed
  next
    case crlf: False
    show ?thesis
    proof (cases "is_linebreak c")
      case True
      have "splitlines_from cur (c # d # cs) = cur # splitlines_from [] (d # cs)"
        by (simp add: crlf True)
      with mem have "l = cur \<or> l \<in> set (splitlines_from [] (d # cs))" by simp
      then show ?thesis
      proof
        assume "l = cur"
        with cur show ?thesis by simp
      next
        assume "l \<in> set (splitlines_from [] (d # cs))"
        with crlf True show ?thesis by (intro "3.IH"(2)) simp_all
      qed
    next
      case False
      have "splitlines_from cur (c # d # cs) = splitlines_from (cur @ [c]) (d # cs)"
        by (simp add: crlf False)
      with mem have "l \<in> set (splitlines_from (cur @ [c]) (d # cs))" by simp
      moreover from cur False have "\<forall>x \<in> set (cur @ [c]). \<not> is_linebreak x" by simp
      ultimately show ?thesis using crlf False by (intro "3.IH"(3)) simp_all
    qed
  qed
qed

lemma splitlines_no_linebreak:
  "l \<in> set (splitlines s) \<Longrightarrow> c \<in> set l \<Longrightarrow> \<not> is_linebreak c"
  using splitlines_from_no_linebreak [of l "[]" s] by (simp add: splitlines_def)

lemma is_linebreak_10 [simp]: "is_linebreak 10"
  by (simp add: is_linebreak_def)

lemma splitlines_no_newline: "l \<in> set (splitlines s) \<Longrightarrow> 10 \<notin> set l"
  using splitlines_no_linebreak [of l s 10] by auto

subsection \<open>One line\<close>

lemma rstrip_subset: "set (rstrip y) \<subseteq> set y"
  using set_dropWhileD [of _ is_space "rev y"] by (auto simp: rstrip_def)

lemma rstrip_trimmed:
  assumes "y \<noteq> []" and "\<not> is_space (hd y)"
  shows "rstrip y \<noteq> [] \<and> hd (rstrip y) = hd y \<and> \<not> is_space (last (rstrip y))"
proof -
  from assms have "\<exists>c \<in> set y. \<not> is_space c" by (cases y) auto
  then obtain a c w where y: "y = a @ c # w" and c: "\<not> is_space c"
    and w: "\<forall>d \<in> set w. \<not> \<not> is_space d"
    by (rule split_list_last_propE)
  from w have "\<forall>d \<in> set w. is_space d" by simp
  with c y have "rstrip y = a @ [c]" by (simp add: rstrip_last)
  with y c show ?thesis by (cases a) simp_all
qed

lemma numbered_rest_props:
  "numbered_rest U s \<noteq> [] \<Longrightarrow>
     \<not> is_space (hd (numbered_rest U s)) \<and> set (numbered_rest U s) \<subseteq> set s"
proof -
  assume ne: "numbered_rest U s \<noteq> []"
  then obtain c r where d: "dropWhile (is_decimal U) s = c # r"
    and n: "numbered_rest U s = dropWhile is_space r"
    by (auto simp: numbered_rest_def split: list.splits if_splits)
  from ne n have "\<not> is_space (hd (numbered_rest U s))" by (simp add: hd_dropWhile)
  moreover have "set (dropWhile is_space r) \<subseteq> set r" by (auto dest: set_dropWhileD)
  moreover have "set r \<subseteq> set s" using d set_dropWhileD [of _ "is_decimal U" s] by auto
  ultimately show ?thesis using n by auto
qed

lemma bulleted_rest_props:
  "bulleted_rest s \<noteq> [] \<Longrightarrow>
     \<not> is_space (hd (bulleted_rest s)) \<and> set (bulleted_rest s) \<subseteq> set s"
proof -
  assume ne: "bulleted_rest s \<noteq> []"
  then obtain c r where s: "s = c # r" and n: "bulleted_rest s = dropWhile is_space r"
    by (auto simp: bulleted_rest_def split: list.splits if_splits)
  from ne n have "\<not> is_space (hd (bulleted_rest s))" by (simp add: hd_dropWhile)
  moreover have "set (dropWhile is_space r) \<subseteq> set r" by (auto dest: set_dropWhileD)
  ultimately show ?thesis using n s by auto
qed

lemma line_text_props:
  assumes "line_text U raw = Some t"
  shows "t \<noteq> [] \<and> \<not> is_space (hd t) \<and> \<not> is_space (last t) \<and> set t \<subseteq> set raw"
proof -
  let ?s = "dropWhile is_space raw"
  let ?y = "case after_marker U ?s of None \<Rightarrow> ?s | Some r \<Rightarrow> r"
  from assms have s: "?s \<noteq> []" and t: "t = rstrip ?y"
    by (auto simp: line_text_def Let_def split: if_splits)
  from s have hs: "\<not> is_space (hd ?s)" by (rule hd_dropWhile)
  have sub: "set ?s \<subseteq> set raw" by (auto dest: set_dropWhileD)
  have y: "?y \<noteq> [] \<and> \<not> is_space (hd ?y) \<and> set ?y \<subseteq> set ?s"
    using s hs numbered_rest_props [of U ?s] bulleted_rest_props [of ?s]
    by (simp add: after_marker_def)
  with rstrip_trimmed [of ?y] rstrip_subset [of ?y] sub t show ?thesis by auto
qed

lemma strip_trimmed:
  assumes "t \<noteq> []" and "\<not> is_space (hd t)" and "\<not> is_space (last t)"
  shows "strip t = t"
proof -
  from assms(1,2) have "dropWhile is_space t = t" by (cases t) simp_all
  moreover from assms(1,3) have "dropWhile is_space (rev t) = rev t"
    by (cases "rev t") (simp_all add: last_rev [symmetric] del: last_rev)
  ultimately show ?thesis by (simp add: strip_def)
qed

lemma candidate_described:
  assumes "10 \<notin> set raw"
  shows "candidate U raw = described_line U raw"
proof (cases "line_text U raw")
  case None
  with assms show ?thesis by (simp add: candidate_def described_line_def re_match_line)
next
  case (Some t)
  from line_text_props [OF this] have "strip t = t" "t \<noteq> []" by (simp_all add: strip_trimmed)
  with Some assms show ?thesis
    by (simp add: candidate_def described_line_def re_match_line group1_def)
qed

lemma parse_lines_cong:
  "(\<And>raw. raw \<in> set ls \<Longrightarrow> f raw = g raw) \<Longrightarrow>
   parse_lines f k ls items seen = parse_lines g k ls items seen"
  by (induction ls arbitrary: items seen) (simp_all add: Let_def split: option.splits)

lemma map_filter_cong:
  "(\<And>raw. raw \<in> set ls \<Longrightarrow> f raw = g raw) \<Longrightarrow> List.map_filter f ls = List.map_filter g ls"
  by (induction ls) (auto simp: List.map_filter_simps split: option.splits)

lemma parse_described:
  "FollowupProposer_parse U text k = parse_lines (described_line U) k (splitlines text) [] {}"
  unfolding FollowupProposer_parse_def parse_loop_lines
  by (rule parse_lines_cong) (simp add: candidate_described splitlines_no_newline)

lemma candidates_described:
  "List.map_filter (candidate U) (splitlines text) =
   List.map_filter (described_line U) (splitlines text)"
  by (rule map_filter_cong) (simp add: candidate_described splitlines_no_newline)

subsection \<open>Group 1 is always captured\<close>

lemma rx_seq_second: "m \<in> set (rx_run (Seq a b) st) \<Longrightarrow> \<exists>st'. m \<in> set (rx_run b st')"
  by (auto simp: rx_run.simps(4))

lemma rx_seq_both:
  "m \<in> set (rx_run (Seq a b) st) \<Longrightarrow> \<exists>st' \<in> set (rx_run a st). m \<in> set (rx_run b st')"
  by (auto simp: rx_run.simps(4))

lemma rx_grp_snd: "m \<in> set (rx_run (Grp a) st) \<Longrightarrow> snd m \<noteq> None"
  by (cases st) (auto simp: rx_run.simps(7))

lemma rx_star_cls_snd: "m \<in> set (rx_run (Star (Cls p)) st) \<Longrightarrow> snd m = snd st"
proof -
  assume m: "m \<in> set (rx_run (Star (Cls p)) st)"
  obtain s g where st: "st = (s, g)" by (cases st)
  from m have "m \<in> set (map (\<lambda>r. (r, g)) (sufs p s))"
    unfolding st rx_star_cls .
  then show ?thesis unfolding st by auto
qed

lemma rx_eos_snd: "m \<in> set (rx_run Eos st) \<Longrightarrow> snd m = snd st"
  by (cases st) (auto simp: rx_run.simps(3) split: if_splits)

lemma rx_body_captures: "m \<in> set (rx_run body_rx st) \<Longrightarrow> snd m \<noteq> None"
proof -
  assume "m \<in> set (rx_run body_rx st)"
  then obtain st1 where st1: "st1 \<in> set (rx_run (Grp (Seq (Star (Cls (\<lambda>c. c \<noteq> 10))) (Cls (\<lambda>c. \<not> is_space c)))) st)"
    and m1: "m \<in> set (rx_run (Seq (Star (Cls is_space)) Eos) st1)"
    unfolding body_rx_def by (blast dest: rx_seq_both)
  from m1 obtain st2 where st2: "st2 \<in> set (rx_run (Star (Cls is_space)) st1)"
    and m2: "m \<in> set (rx_run Eos st2)"
    by (blast dest: rx_seq_both)
  from rx_eos_snd [OF m2] rx_star_cls_snd [OF st2] rx_grp_snd [OF st1]
  show ?thesis by simp
qed

lemma line_rx_group1: "re_match (line_rx U) raw = Some m \<Longrightarrow> group1 m \<noteq> None"
proof -
  assume "re_match (line_rx U) raw = Some m"
  then have "m \<in> set (rx_run (line_rx U) (raw, None))"
    by (cases "rx_run (line_rx U) (raw, None)") (simp_all add: re_match_def)
  then obtain st1 where "m \<in> set (rx_run (Seq (Opt (marker_rx U)) body_rx) st1)"
    unfolding line_rx_def by (blast dest: rx_seq_second)
  then obtain st2 where "m \<in> set (rx_run body_rx st2)"
    by (blast dest: rx_seq_second)
  then show ?thesis by (simp add: group1_def rx_body_captures)
qed

section \<open>The rendered menu, parsed again\<close>

subsection \<open>The items of a menu\<close>

lemma described_line_valid:
  assumes "described_line U raw = Some t" and "\<forall>c \<in> set raw. \<not> is_linebreak c"
  shows "valid_item U t"
proof -
  from assms(1) have lt: "line_text U raw = Some t" and h: "\<not> is_header U t"
    by (auto simp: described_line_def split: option.splits if_splits)
  from line_text_props [OF lt] assms(2) h show ?thesis
    by (auto simp: valid_item_def list_all_iff)
qed

lemma parse_lines_items:
  "t \<in> set (parse_lines f k ls items seen) \<Longrightarrow>
   t \<in> set items \<or> (\<exists>raw \<in> set ls. f raw = Some t)"
proof (induction ls arbitrary: items seen)
  case Nil
  then show ?case by simp
next
  case (Cons raw rest)
  show ?case
  proof (cases "f raw")
    case None
    with Cons.prems have "t \<in> set (parse_lines f k rest items seen)" by simp
    from Cons.IH [OF this] show ?thesis by auto
  next
    case (Some u)
    let ?items = "if u \<notin> seen then items @ [u] else items"
    let ?seen = "if u \<notin> seen then insert u seen else seen"
    show ?thesis
    proof (cases "int (length ?items) \<ge> k")
      case True
      with Some Cons.prems have "t \<in> set ?items" by (simp add: Let_def)
      with Some show ?thesis by (auto split: if_splits)
    next
      case False
      with Some Cons.prems have "t \<in> set (parse_lines f k rest ?items ?seen)"
        by (simp add: Let_def)
      from Cons.IH [OF this] Some show ?thesis by (auto split: if_splits)
    qed
  qed
qed

lemma parse_lines_distinct:
  "distinct items \<Longrightarrow> seen = set items \<Longrightarrow> distinct (parse_lines f k ls items seen)"
proof (induction ls arbitrary: items seen)
  case Nil
  then show ?case by simp
next
  case (Cons raw rest)
  show ?case
  proof (cases "f raw")
    case None
    with Cons show ?thesis by simp
  next
    case (Some u)
    let ?items = "if u \<notin> seen then items @ [u] else items"
    let ?seen = "if u \<notin> seen then insert u seen else seen"
    have d: "distinct ?items" and s: "?seen = set ?items" using Cons.prems by auto
    show ?thesis
    proof (cases "int (length ?items) \<ge> k")
      case True
      with Some d show ?thesis by (simp add: Let_def)
    next
      case False
      with Some Cons.IH [OF d s] show ?thesis by (simp add: Let_def)
    qed
  qed
qed

lemma parse_distinct: "distinct (FollowupProposer_parse U text k)"
  unfolding parse_described by (rule parse_lines_distinct) simp_all

lemma parse_valid: "t \<in> set (FollowupProposer_parse U text k) \<Longrightarrow> valid_item U t"
proof -
  assume "t \<in> set (FollowupProposer_parse U text k)"
  then have "t \<in> set (parse_lines (described_line U) k (splitlines text) [] {})"
    by (simp only: parse_described)
  from parse_lines_items [OF this] obtain raw where raw: "raw \<in> set (splitlines text)"
    and t: "described_line U raw = Some t" by auto
  from raw have "\<forall>c \<in> set raw. \<not> is_linebreak c" by (auto dest: splitlines_no_linebreak)
  with t show ?thesis by (rule described_line_valid)
qed

lemma str_nat_digits: "str_nat n \<noteq> [] \<and> (\<forall>c \<in> set (str_nat n). 48 \<le> c \<and> c \<le> 57)"
proof (induction n rule: str_nat.induct)
  case (1 n)
  show ?case
  proof (cases "n < 10")
    case True
    then show ?thesis by (simp add: str_nat.simps [of n])
  next
    case False
    have "n mod 10 < 10" by simp
    then have "48 + n mod 10 \<le> 57" by linarith
    with False "1.IH" show ?thesis by (simp add: str_nat.simps [of n])
  qed
qed

lemma not_linebreak_13: "\<not> is_linebreak c \<Longrightarrow> c \<noteq> 13"
  by (auto simp: is_linebreak_def)

lemma splitlines_from_plain:
  "\<forall>c \<in> set x. \<not> is_linebreak c \<Longrightarrow>
   splitlines_from cur x = (if cur @ x = [] then [] else [cur @ x])"
proof (induction cur x rule: splitlines_from.induct)
  case (1 cur)
  show ?case by simp
next
  case (2 cur c)
  then show ?case by simp
next
  case (3 cur c d cs)
  then have c: "\<not> is_linebreak c" and rest: "\<forall>c \<in> set (d # cs). \<not> is_linebreak c" by simp_all
  from c have crlf: "\<not> (c = 13 \<and> d = 10)" by (auto dest: not_linebreak_13)
  have "splitlines_from cur (c # d # cs) = splitlines_from (cur @ [c]) (d # cs)"
    by (simp add: crlf c)
  also have "\<dots> = (if (cur @ [c]) @ d # cs = [] then [] else [(cur @ [c]) @ d # cs])"
    using crlf c rest by (rule "3.IH"(3))
  finally show ?case by simp
qed

lemma splitlines_from_newline: "splitlines_from cur (10 # rest) = cur # splitlines_from [] rest"
  by (cases rest) simp_all

lemma splitlines_from_line:
  "\<forall>c \<in> set x. \<not> is_linebreak c \<Longrightarrow>
   splitlines_from cur (x @ 10 # rest) = (cur @ x) # splitlines_from [] rest"
proof (induction x arbitrary: cur)
  case Nil
  show ?case by (simp add: splitlines_from_newline)
next
  case (Cons c x)
  then have c: "\<not> is_linebreak c" and x: "\<forall>c \<in> set x. \<not> is_linebreak c" by simp_all
  obtain d cs where dcs: "x @ 10 # rest = d # cs" by (cases "x @ 10 # rest") auto
  from c have crlf: "\<not> (c = 13 \<and> d = 10)" by (auto dest: not_linebreak_13)
  have "splitlines_from cur ((c # x) @ 10 # rest) = splitlines_from cur (c # d # cs)"
    by (simp add: dcs)
  also have "\<dots> = splitlines_from (cur @ [c]) (d # cs)"
    by (simp add: crlf c)
  also have "\<dots> = splitlines_from (cur @ [c]) (x @ 10 # rest)"
    by (simp add: dcs)
  also have "\<dots> = ((cur @ [c]) @ x) # splitlines_from [] rest"
    using x by (rule Cons.IH)
  finally show ?case by simp
qed

lemma splitlines_from_join:
  "ls \<noteq> [] \<Longrightarrow> \<forall>l \<in> set ls. l \<noteq> [] \<and> (\<forall>c \<in> set l. \<not> is_linebreak c) \<Longrightarrow>
   splitlines_from [] (join [10] ls) = ls"
proof (induction "[10::nat]" ls rule: join.induct)
  case 1
  then show ?case by simp
next
  case (2 x)
  then show ?case by (simp add: splitlines_from_plain)
next
  case (3 x y ys)
  then have x: "\<forall>c \<in> set x. \<not> is_linebreak c"
    and rest: "\<forall>l \<in> set (y # ys). l \<noteq> [] \<and> (\<forall>c \<in> set l. \<not> is_linebreak c)"
    by simp_all
  have "splitlines_from [] (join [10] (x # y # ys)) =
          splitlines_from [] (x @ 10 # join [10] (y # ys))"
    by simp
  also have "\<dots> = x # splitlines_from [] (join [10] (y # ys))"
    using splitlines_from_line [OF x, of "[]"] by simp
  also have "splitlines_from [] (join [10] (y # ys)) = y # ys"
    using rest by (intro "3.hyps") simp_all
  finally show ?case .
qed

lemma digit_not_space: "48 \<le> c \<Longrightarrow> c \<le> 57 \<Longrightarrow> \<not> is_space c"
  by (simp add: is_space_def)

lemma digit_decimal: "48 \<le> c \<Longrightarrow> c \<le> 57 \<Longrightarrow> is_decimal U c"
  by (simp add: is_decimal_def)

lemma digit_not_linebreak: "48 \<le> c \<Longrightarrow> c \<le> 57 \<Longrightarrow> \<not> is_linebreak c"
  by (simp add: is_linebreak_def)

lemma rstrip_id: "q \<noteq> [] \<Longrightarrow> \<not> is_space (last q) \<Longrightarrow> rstrip q = q"
proof -
  assume "q \<noteq> []" and "\<not> is_space (last q)"
  then have "dropWhile is_space (rev q) = rev q"
    by (cases "rev q") (simp_all add: last_rev [symmetric] del: last_rev)
  then show ?thesis by (simp add: rstrip_def)
qed

lemma lstrip_id: "q \<noteq> [] \<Longrightarrow> \<not> is_space (hd q) \<Longrightarrow> dropWhile is_space q = q"
  by (cases q) simp_all

lemma line_text_numbered_line:
  assumes q: "q \<noteq> []" "\<not> is_space (hd q)" "\<not> is_space (last q)"
  shows "line_text U (numbered_line i q) = Some q"
proof -
  let ?ds = "str_nat (i + 1)"
  let ?s = "?ds @ 46 # 32 # q"
  from str_nat_digits [of "i + 1"] have ne: "?ds \<noteq> []"
    and dig: "\<And>c. c \<in> set ?ds \<Longrightarrow> 48 \<le> c \<and> c \<le> 57" by auto
  have s: "numbered_line i q = ?s" by (simp add: numbered_line_def ustr_def)
  from ne dig have "\<not> is_space (hd ?s)" by (cases ?ds) (auto simp: digit_not_space)
  then have lead: "dropWhile is_space ?s = ?s" by (intro lstrip_id) simp_all
  have "dropWhile (is_decimal U) ?s = dropWhile (is_decimal U) (46 # 32 # q)"
    using dig by (intro dropWhile_append2) (simp add: digit_decimal)
  then have dw: "dropWhile (is_decimal U) ?s = 46 # 32 # q" by simp
  have len: "?s \<noteq> 46 # 32 # q"
  proof
    assume "?s = 46 # 32 # q"
    then have "length ?s = length (46 # 32 # q)" by simp
    with ne show False by simp
  qed
  have sp: "is_space 32" by (simp add: is_space_def)
  have "numbered_rest U ?s = dropWhile is_space (32 # q)"
    unfolding numbered_rest_def dw using len by simp
  also have "\<dots> = q" using sp q by (simp add: lstrip_id)
  finally have "numbered_rest U ?s = q" .
  with q(1) have "after_marker U ?s = Some q" by (simp add: after_marker_def)
  with lead q show ?thesis
    unfolding s line_text_def by (simp add: rstrip_id)
qed

lemma described_numbered_line:
  "valid_item U q \<Longrightarrow> described_line U (numbered_line i q) = Some q"
  by (simp add: valid_item_def described_line_def line_text_numbered_line)

lemma numbered_line_plain:
  assumes "valid_item U q"
  shows "numbered_line i q \<noteq> [] \<and> (\<forall>c \<in> set (numbered_line i q). \<not> is_linebreak c)"
proof -
  from assms have "\<forall>c \<in> set q. \<not> is_linebreak c" by (simp add: valid_item_def list_all_iff)
  moreover have "\<forall>c \<in> set (str_nat (i + 1)). \<not> is_linebreak c"
    using str_nat_digits [of "i + 1"] by (auto simp: digit_not_linebreak)
  moreover have "\<not> is_linebreak 46" "\<not> is_linebreak 32" by (simp_all add: is_linebreak_def)
  ultimately show ?thesis by (auto simp: numbered_line_def ustr_def)
qed

lemma described_numbered_lines:
  "\<forall>q \<in> set menu. valid_item U q \<Longrightarrow>
   List.map_filter (described_line U) (map (\<lambda>(i, q). numbered_line i q) (enumerate n menu)) = menu"
  by (induction menu arbitrary: n) (simp_all add: List.map_filter_simps described_numbered_line)

lemma described_empty_line: "described_line U [] = None"
  by (simp add: described_line_def line_text_def)

lemma described_header_line: "described_line U (ustr ''Follow-ups:'') = None"
  by (simp add: described_line_def line_text_def after_marker_def numbered_rest_def
        bulleted_rest_def is_header_def Let_def ustr_def is_space_def is_decimal_def
        ascii_lower_def lower_def rstrip_def startswith_def)

lemma menu_text_lines:
  assumes ne: "self_menu s \<noteq> []" and valid: "\<forall>q \<in> set (self_menu s). valid_item U q"
  shows "splitlines (menu_text s (ustr ''Follow-ups'')) =
           [] # [] # ustr ''Follow-ups:'' #
           map (\<lambda>(i, q). numbered_line i q) (enumerate 0 (self_menu s))"
proof -
  let ?lines = "map (\<lambda>(i, q). numbered_line i q) (enumerate 0 (self_menu s))"
  have lines: "?lines \<noteq> []" using ne by (cases "self_menu s") simp_all
  have plain: "\<forall>l \<in> set ?lines. l \<noteq> [] \<and> (\<forall>c \<in> set l. \<not> is_linebreak c)"
  proof
    fix l assume "l \<in> set ?lines"
    then obtain i q where l: "l = numbered_line i q" and "(i, q) \<in> set (enumerate 0 (self_menu s))"
      by auto
    then have "q \<in> set (self_menu s)" by (auto simp: in_set_enumerate_eq)
    with valid have "valid_item U q" by simp
    then show "l \<noteq> [] \<and> (\<forall>c \<in> set l. \<not> is_linebreak c)"
      unfolding l by (rule numbered_line_plain)
  qed
  have title: "\<forall>c \<in> set (ustr ''Follow-ups:''). \<not> is_linebreak c"
    by (simp add: ustr_def is_linebreak_def)
  have "menu_text s (ustr ''Follow-ups'') =
          10 # 10 # ustr ''Follow-ups:'' @ 10 # join [10] ?lines"
    using ne by (simp add: menu_text_def numbered_line_def ustr_def)
  then have "splitlines (menu_text s (ustr ''Follow-ups'')) =
          [] # [] # splitlines_from [] (ustr ''Follow-ups:'' @ 10 # join [10] ?lines)"
    by (simp add: splitlines_def splitlines_from_newline)
  also have "splitlines_from [] (ustr ''Follow-ups:'' @ 10 # join [10] ?lines) =
          ustr ''Follow-ups:'' # splitlines_from [] (join [10] ?lines)"
    using splitlines_from_line [OF title, of "[]"] by simp
  also have "splitlines_from [] (join [10] ?lines) = ?lines"
    using lines plain by (rule splitlines_from_join)
  finally show ?thesis .
qed

text \<open>
  C6.  The parser is idempotent on its own rendered output: when the menu of a state is
  the result of a parse, parsing its rendering by \<open>menu_text\<close> (the header line
  \<^verbatim>\<open>Follow-ups:\<close> and the numbered lines) with any limit that is at least the length of the
  menu gives the menu back.
\<close>

theorem parse_menu_text:
  assumes menu: "self_menu s = FollowupProposer_parse U text0 k0"
    and k: "int (length (self_menu s)) \<le> k"
  shows "FollowupProposer_parse U (menu_text s (ustr ''Follow-ups'')) k = self_menu s"
proof (cases "self_menu s = []")
  case True
  then show ?thesis
    by (simp add: menu_text_def FollowupProposer_parse_def splitlines_def)
next
  case False
  with k have pos: "0 < k" by (cases "self_menu s") auto
  have valid: "\<forall>q \<in> set (self_menu s). valid_item U q"
    unfolding menu by (auto intro: parse_valid)
  have dist: "distinct (self_menu s)" unfolding menu by (rule parse_distinct)
  let ?lines = "map (\<lambda>(i, q). numbered_line i q) (enumerate 0 (self_menu s))"
  have "List.map_filter (candidate U) (splitlines (menu_text s (ustr ''Follow-ups''))) =
          List.map_filter (described_line U) ([] # [] # ustr ''Follow-ups:'' # ?lines)"
    using candidates_described [of U "menu_text s (ustr ''Follow-ups'')"]
    by (simp only: menu_text_lines [OF False valid])
  also have "\<dots> = List.map_filter (described_line U) ?lines"
    by (simp add: List.map_filter_simps described_empty_line described_header_line)
  also have "\<dots> = self_menu s"
    using valid by (rule described_numbered_lines)
  finally have "FollowupProposer_parse U (menu_text s (ustr ''Follow-ups'')) k =
          take (nat k) (first_occurrences (self_menu s))"
    using pos by (simp add: parse_first_occurrences)
  also have "\<dots> = self_menu s"
    using dist k by (simp add: first_occurrences_distinct)
  finally show ?thesis .
qed

section \<open>Claims about the parser\<close>

text \<open>The equations that evaluate the parser on a given text.\<close>

lemmas text_eval = ustr_def is_space_def is_linebreak_def is_decimal_def ascii_lower_def lower_def
  strip_def rstrip_def startswith_def splitlines_def

lemmas line_eval = described_line_def line_text_def after_marker_def numbered_rest_def
  bulleted_rest_def is_header_def Let_def

lemmas spec_eval = spec_parse_def spec_line_def spec_strip_marker_def spec_strip_bullet_def

text \<open>
  C5.  With a limit above zero the parser returns at most \<open>limit\<close> questions, no two of
  them equal, and they are the first \<open>limit\<close> first occurrences among the contributions of
  the lines, in the order of the lines: a later duplicate is dropped, and the lines after
  the limit is reached are not looked at.
\<close>

theorem parse_limit_distinct_first:
  assumes "0 < k"
  shows "length (FollowupProposer_parse U text k) \<le> nat k
       \<and> distinct (FollowupProposer_parse U text k)
       \<and> FollowupProposer_parse U text k =
           take (nat k) (first_occurrences (List.map_filter (candidate U) (splitlines text)))"
  using assms by (simp add: parse_first_occurrences)

theorem parse_limit_distinct_first_witness:
  "(0::int) < 2
   \<and> FollowupProposer_parse ascii_ucd
        (ustr ''1. A'' @ [10] @ ustr ''2. A'' @ [10] @ ustr ''3. B'' @ [10] @ ustr ''4. C'') 2
       = [ustr ''A'', ustr ''B'']
   \<and> List.map_filter (candidate ascii_ucd)
        (splitlines (ustr ''1. A'' @ [10] @ ustr ''2. A'' @ [10] @ ustr ''3. B'' @ [10] @ ustr ''4. C''))
       = [ustr ''A'', ustr ''A'', ustr ''B'', ustr ''C'']"
proof -
  let ?text = "ustr ''1. A'' @ [10] @ ustr ''2. A'' @ [10] @ ustr ''3. B'' @ [10] @ ustr ''4. C''"
  have c: "List.map_filter (candidate ascii_ucd) (splitlines ?text) =
           [ustr ''A'', ustr ''A'', ustr ''B'', ustr ''C'']"
    unfolding candidates_described
    by (simp add: text_eval line_eval List.map_filter_simps)
  have pos: "(0::int) < 2" by simp
  from parse_limit_distinct_first [OF pos, of ascii_ucd ?text]
  have "FollowupProposer_parse ascii_ucd ?text 2 =
          take (nat 2) (first_occurrences [ustr ''A'', ustr ''A'', ustr ''B'', ustr ''C''])"
    by (simp only: c)
  also have "\<dots> = [ustr ''A'', ustr ''B'']"
    by (simp add: first_occurrences_def ustr_def)
  finally show ?thesis using c pos by simp
qed

text \<open>
  The menu \<open>A, B, C\<close> is what the parser returns on three bulleted lines; rendered and
  parsed again with limit 3 it is the same menu.
\<close>

theorem parse_menu_text_witness:
  "self_menu three =
     FollowupProposer_parse ascii_ucd (ustr ''- A'' @ [10] @ ustr ''- B'' @ [10] @ ustr ''- C'') 4
   \<and> int (length (self_menu three)) \<le> 3
   \<and> menu_text three (ustr ''Follow-ups'') =
       [10, 10] @ ustr ''Follow-ups:'' @ [10] @ ustr ''1. A'' @ [10] @ ustr ''2. B'' @ [10] @ ustr ''3. C''
   \<and> FollowupProposer_parse ascii_ucd (menu_text three (ustr ''Follow-ups'')) 3 =
       [ustr ''A'', ustr ''B'', ustr ''C'']"
proof -
  have m: "self_menu three =
     FollowupProposer_parse ascii_ucd (ustr ''- A'' @ [10] @ ustr ''- B'' @ [10] @ ustr ''- C'') 4"
    unfolding parse_described by (simp add: three_def text_eval line_eval)
  have k: "int (length (self_menu three)) \<le> 3" by (simp add: three_def)
  have t: "menu_text three (ustr ''Follow-ups'') =
       [10, 10] @ ustr ''Follow-ups:'' @ [10] @ ustr ''1. A'' @ [10] @ ustr ''2. B'' @ [10] @ ustr ''3. C''"
    by (simp add: menu_text_def three_def ustr_def str_nat.simps [of "Suc 0"]
          str_nat.simps [of "Suc (Suc 0)"] str_nat.simps [of "Suc (Suc (Suc 0))"])
  from parse_menu_text [OF m k]
  have "FollowupProposer_parse ascii_ucd (menu_text three (ustr ''Follow-ups'')) 3 = self_menu three" .
  with m k t show ?thesis by (simp add: three_def)
qed









text \<open>
  A line that is a marker and nothing else becomes a question in the source, where the
  words of the specification skip it: group 1 of the pattern needs a character that is not
  whitespace, so the optional marker part matches the empty text and the marker itself is
  captured.  The test \<^verbatim>\<open>if not t: continue\<close> of the loop is never true.
\<close>

lemma parse_bare_marker:
  "FollowupProposer_parse U (ustr ''1. '') 4 = [ustr ''1.'']
   \<and> spec_parse U (ustr ''1. '') 4 = []"
proof -
  have "FollowupProposer_parse U (ustr ''1. '') 4 = [ustr ''1.'']"
    unfolding parse_described by (simp add: text_eval line_eval)
  moreover have "spec_parse U (ustr ''1. '') 4 = []"
    by (simp add: spec_eval text_eval)
  ultimately show ?thesis by simp
qed




section \<open>\<^verbatim>\<open>peek_immediate\<close>\<close>

text \<open>
  C3.  For an index outside \<open>[1, len(menu)]\<close>, \<^verbatim>\<open>peek_immediate\<close> returns the message that names
  the upper bound \<open>len(menu)\<close>; for an index inside, it returns the answer cached at that
  index.  It returns a string in every case: no branch of it raises.
\<close>

theorem peek_immediate_result:
  "(\<not> (1 \<le> i \<and> i \<le> int (length (self_menu s))) \<longrightarrow>
      fst (peek_immediate s i) =
        ustr ''Please choose a number between 1 and '' @ str_nat (length (self_menu s)) @ ustr ''.'')
   \<and> (1 \<le> i \<and> i \<le> int (length (self_menu s)) \<longrightarrow> self_answers s i = Some a \<longrightarrow>
        fst (peek_immediate s i) = a)"
  by (simp add: peek_immediate_def)

text \<open>Menu of length 3: index 5 gives exactly the message of the scenario, index 2 the
  cached answer.\<close>

theorem peek_immediate_result_witness:
  "fst (peek_immediate three 5) = ustr ''Please choose a number between 1 and 3.''
   \<and> fst (peek_immediate three 2) = ustr ''b''"
proof -
  have len: "length (self_menu three) = 3" by (simp add: three_def)
  have a: "\<not> (1 \<le> (5::int) \<and> 5 \<le> int (length (self_menu three)))" by (simp add: len)
  have b: "1 \<le> (2::int) \<and> 2 \<le> int (length (self_menu three))" by (simp add: len)
  have c: "self_answers three 2 = Some (ustr ''b'')" by (simp add: three_def)
  have s3: "str_nat 3 = [51]" by (simp add: str_nat.simps [of 3])
  from peek_immediate_result [of 5 three] a
  have "fst (peek_immediate three 5) =
        ustr ''Please choose a number between 1 and '' @ str_nat 3 @ ustr ''.''"
    by (simp add: len)
  moreover from peek_immediate_result [of 2 three "ustr ''b''"] b c
  have "fst (peek_immediate three 2) = ustr ''b''" by blast
  ultimately show ?thesis by (simp add: s3 ustr_def)
qed

text \<open>
  C4.  \<^verbatim>\<open>peek_immediate\<close> is a pure read: whatever the index and the state, the state after
  the call (base question, menu, answer cache and limit) is the state before it.
\<close>

theorem peek_immediate_pure: "snd (peek_immediate s i) = s"
  by (simp add: peek_immediate_def split: option.splits)

theorem peek_immediate_pure_witness:
  "snd (peek_immediate three 5) = three \<and> snd (peek_immediate three 2) = three"
  using peek_immediate_pure [of three 5] peek_immediate_pure [of three 2] by simp

section \<open>The loop that fills the cache\<close>

lemma fill_answers_below:
  "fill_answers L b i fus ans = (r, ans', cs) \<Longrightarrow> j < i \<Longrightarrow> ans' j = ans j"
proof (induction fus arbitrary: i ans r ans' cs)
  case Nil
  then show ?case by simp
next
  case (Cons fu fus)
  show ?case
  proof (cases "FollowupAnswerer_forward L b fu")
    case (Inl e)
    with Cons.prems show ?thesis by simp
  next
    case (Inr a)
    obtain r1 ans1 cs1 where rec: "fill_answers L b (i + 1) fus (ans(i \<mapsto> a)) = (r1, ans1, cs1)"
      by (cases "fill_answers L b (i + 1) fus (ans(i \<mapsto> a))") auto
    with Cons.prems(1) Inr have eq: "ans' = ans1" by simp
    from Cons.IH [OF rec] Cons.prems(2) have "ans1 j = (ans(i \<mapsto> a)) j" by simp
    with Cons.prems(2) eq show ?thesis by simp
  qed
qed

lemma fill_answers_success:
  "fill_answers L b i fus ans = (None, ans', cs) \<Longrightarrow>
     cs = map (FollowupAnswerSig b) fus \<and>
     dom ans' = dom ans \<union> {i ..< i + int (length fus)} \<and>
     (\<forall>j < length fus. \<exists>a. followup_answer_p L b (fus ! j) = Inr a \<and> ans' (i + int j) = Some a)"
proof (induction fus arbitrary: i ans ans' cs)
  case Nil
  then show ?case by simp
next
  case (Cons fu fus)
  show ?case
  proof (cases "FollowupAnswerer_forward L b fu")
    case (Inl e)
    with Cons.prems show ?thesis by simp
  next
    case (Inr a)
    obtain r1 ans1 cs1 where rec: "fill_answers L b (i + 1) fus (ans(i \<mapsto> a)) = (r1, ans1, cs1)"
      by (cases "fill_answers L b (i + 1) fus (ans(i \<mapsto> a))") auto
    with Cons.prems Inr have eqs: "r1 = None" "ans' = ans1" "cs = FollowupAnswerSig b fu # cs1"
      by simp_all
    note ih = Cons.IH [OF rec [unfolded eqs(1)]]
    have keep: "ans1 i = Some a"
      using fill_answers_below [OF rec, of i] by simp
    have c1: "cs = map (FollowupAnswerSig b) (fu # fus)" using ih eqs by simp
    have c2: "dom ans' = dom ans \<union> {i ..< i + int (length (fu # fus))}"
      using ih eqs by auto
    have c3: "\<exists>a. followup_answer_p L b ((fu # fus) ! j) = Inr a \<and> ans' (i + int j) = Some a"
      if "j < length (fu # fus)" for j
    proof (cases j)
      case 0
      with Inr keep eqs show ?thesis by (simp add: FollowupAnswerer_forward_def)
    next
      case (Suc j')
      with that have "j' < length fus" by simp
      with ih obtain a' where "followup_answer_p L b (fus ! j') = Inr a'" "ans1 (i + 1 + int j') = Some a'"
        by blast
      moreover have "i + 1 + int j' = i + int (Suc j')" by simp
      ultimately show ?thesis using Suc eqs by (simp del: of_nat_Suc)
    qed
    from c1 c2 c3 show ?thesis by blast
  qed
qed

lemma fill_answers_failure:
  "fill_answers L b i fus ans = (Some e, ans', cs) \<Longrightarrow>
     \<exists>j < length fus.
       followup_answer_p L b (fus ! j) = Inl e \<and>
       cs = map (FollowupAnswerSig b) (take (Suc j) fus) \<and>
       dom ans' = dom ans \<union> {i ..< i + int j} \<and>
       (\<forall>n < j. \<exists>a. followup_answer_p L b (fus ! n) = Inr a \<and> ans' (i + int n) = Some a)"
proof (induction fus arbitrary: i ans ans' cs)
  case Nil
  then show ?case by simp
next
  case (Cons fu fus)
  show ?case
  proof (cases "FollowupAnswerer_forward L b fu")
    case (Inl e')
    with Cons.prems have "e' = e" "ans' = ans" "cs = [FollowupAnswerSig b fu]" by simp_all
    with Inl have "followup_answer_p L b ((fu # fus) ! 0) = Inl e \<and>
       cs = map (FollowupAnswerSig b) (take (Suc 0) (fu # fus)) \<and>
       dom ans' = dom ans \<union> {i ..< i + int 0} \<and>
       (\<forall>n < (0::nat). \<exists>a. followup_answer_p L b ((fu # fus) ! n) = Inr a \<and> ans' (i + int n) = Some a)"
      by (simp add: FollowupAnswerer_forward_def)
    then show ?thesis by blast
  next
    case (Inr a)
    obtain r1 ans1 cs1 where rec: "fill_answers L b (i + 1) fus (ans(i \<mapsto> a)) = (r1, ans1, cs1)"
      by (cases "fill_answers L b (i + 1) fus (ans(i \<mapsto> a))") auto
    with Cons.prems Inr have eqs: "r1 = Some e" "ans' = ans1" "cs = FollowupAnswerSig b fu # cs1"
      by simp_all
    have keep: "ans1 i = Some a"
      using fill_answers_below [OF rec, of i] by simp
    from Cons.IH [OF rec [unfolded eqs(1)]] obtain j where j: "j < length fus"
      "followup_answer_p L b (fus ! j) = Inl e"
      "cs1 = map (FollowupAnswerSig b) (take (Suc j) fus)"
      "dom ans1 = dom (ans(i \<mapsto> a)) \<union> {i + 1 ..< i + 1 + int j}"
      "\<forall>n < j. \<exists>a. followup_answer_p L b (fus ! n) = Inr a \<and> ans1 (i + 1 + int n) = Some a"
      by blast
    have "Suc j < length (fu # fus)" using j(1) by simp
    moreover have "followup_answer_p L b ((fu # fus) ! Suc j) = Inl e" using j(2) by simp
    moreover have "cs = map (FollowupAnswerSig b) (take (Suc (Suc j)) (fu # fus))"
      using j(3) eqs by simp
    moreover have "dom ans' = dom ans \<union> {i ..< i + int (Suc j)}"
      using j(4) eqs by auto
    moreover have "\<exists>a. followup_answer_p L b ((fu # fus) ! n) = Inr a \<and> ans' (i + int n) = Some a"
      if "n < Suc j" for n
    proof (cases n)
      case 0
      with Inr keep eqs show ?thesis by (simp add: FollowupAnswerer_forward_def)
    next
      case (Suc n')
      with that have "n' < j" by simp
      with j(5) obtain a' where "followup_answer_p L b (fus ! n') = Inr a'"
        "ans1 (i + 1 + int n') = Some a'" by blast
      moreover have "i + 1 + int n' = i + int (Suc n')" by simp
      ultimately show ?thesis using Suc eqs by (simp del: of_nat_Suc)
    qed
    ultimately show ?thesis by blast
  qed
qed

lemma atLeastLessThan_one: "{1 ..< 1 + int n} = {1 .. int n}"
  by auto

section \<open>The runs of \<^verbatim>\<open>ask\<close> and \<^verbatim>\<open>rotate_next_layer\<close>\<close>

lemma ask_main_fails:
  "main_answer_p L q = Inl e \<Longrightarrow>
   ask U L s q = (Inl e, s\<lparr>self_base := Some q\<rparr>, [MainAnswerSig q])"
  by (simp add: ask_def MainAnswerer_forward_def)

lemma ask_propose_fails:
  "main_answer_p L q = Inr a \<Longrightarrow>
   FollowupProposer_forward U L (ask_ctx q a) (self_k s) = Inl e \<Longrightarrow>
   ask U L s q = (Inl e, s\<lparr>self_base := Some q\<rparr>,
                  [MainAnswerSig q, ProposeFollowupsSig (ask_ctx q a)])"
  by (simp add: ask_def MainAnswerer_forward_def)

lemma ask_fill_fails:
  "main_answer_p L q = Inr a \<Longrightarrow>
   FollowupProposer_forward U L (ask_ctx q a) (self_k s) = Inr m \<Longrightarrow>
   fill_answers L q 1 m Map.empty = (Some e, ans, cs) \<Longrightarrow>
   ask U L s q = (Inl e, s\<lparr>self_base := Some q, self_menu := m, self_answers := ans\<rparr>,
                  MainAnswerSig q # ProposeFollowupsSig (ask_ctx q a) # cs)"
  by (simp add: ask_def MainAnswerer_forward_def)

lemma ask_succeeds:
  "main_answer_p L q = Inr a \<Longrightarrow>
   FollowupProposer_forward U L (ask_ctx q a) (self_k s) = Inr m \<Longrightarrow>
   fill_answers L q 1 m Map.empty = (None, ans, cs) \<Longrightarrow>
   ask U L s q =
     (Inr (a @ menu_text (s\<lparr>self_base := Some q, self_menu := m, self_answers := ans\<rparr>)
                 (ustr ''Follow-ups''), m),
      s\<lparr>self_base := Some q, self_menu := m, self_answers := ans\<rparr>,
      MainAnswerSig q # ProposeFollowupsSig (ask_ctx q a) # cs)"
  by (simp add: ask_def MainAnswerer_forward_def Let_def)

lemma rotate_index_fails:
  "list_index (self_menu s) (i - 1) = Inl e \<Longrightarrow>
   rotate_next_layer U L s i = (Inl e, s, [])"
  by (simp add: rotate_next_layer_def)

lemma rotate_propose_fails:
  "list_index (self_menu s) (i - 1) = Inr sel \<Longrightarrow>
   FollowupProposer_forward U L (rotate_ctx sel (cached s i)) (self_k s) = Inl e \<Longrightarrow>
   rotate_next_layer U L s i =
     (Inl e, s\<lparr>self_base := Some sel\<rparr>, [ProposeFollowupsSig (rotate_ctx sel (cached s i))])"
  by (simp add: rotate_next_layer_def)

lemma rotate_fill_fails:
  "list_index (self_menu s) (i - 1) = Inr sel \<Longrightarrow>
   FollowupProposer_forward U L (rotate_ctx sel (cached s i)) (self_k s) = Inr m \<Longrightarrow>
   fill_answers L sel 1 m Map.empty = (Some e, ans, cs) \<Longrightarrow>
   rotate_next_layer U L s i =
     (Inl e, s\<lparr>self_base := Some sel, self_menu := m, self_answers := ans\<rparr>,
      ProposeFollowupsSig (rotate_ctx sel (cached s i)) # cs)"
  by (simp add: rotate_next_layer_def)

lemma rotate_succeeds:
  "list_index (self_menu s) (i - 1) = Inr sel \<Longrightarrow>
   FollowupProposer_forward U L (rotate_ctx sel (cached s i)) (self_k s) = Inr m \<Longrightarrow>
   fill_answers L sel 1 m Map.empty = (None, ans, cs) \<Longrightarrow>
   rotate_next_layer U L s i =
     (Inr m, s\<lparr>self_base := Some sel, self_menu := m, self_answers := ans\<rparr>,
      ProposeFollowupsSig (rotate_ctx sel (cached s i)) # cs)"
  by (simp add: rotate_next_layer_def Let_def)

text \<open>Every run of ask is one of the four cases.\<close>

lemma ask_cases:
  obtains (main_fails) e where "main_answer_p L q = Inl e"
  | (propose_fails) a e where "main_answer_p L q = Inr a"
      "FollowupProposer_forward U L (ask_ctx q a) (self_k s) = Inl e"
  | (fill_fails) a m e ans cs where "main_answer_p L q = Inr a"
      "FollowupProposer_forward U L (ask_ctx q a) (self_k s) = Inr m"
      "fill_answers L q 1 m Map.empty = (Some e, ans, cs)"
  | (succeeds) a m ans cs where "main_answer_p L q = Inr a"
      "FollowupProposer_forward U L (ask_ctx q a) (self_k s) = Inr m"
      "fill_answers L q 1 m Map.empty = (None, ans, cs)"
proof (cases "main_answer_p L q")
  case (Inl e)
  then show ?thesis by (rule main_fails)
next
  case a: (Inr a)
  show ?thesis
  proof (cases "FollowupProposer_forward U L (ask_ctx q a) (self_k s)")
    case (Inl e)
    with a show ?thesis by (rule propose_fails)
  next
    case m: (Inr m)
    obtain r ans cs where f: "fill_answers L q 1 m Map.empty = (r, ans, cs)"
      by (cases "fill_answers L q 1 m Map.empty") auto
    show ?thesis
    proof (cases r)
      case None
      with a m f show ?thesis by (auto intro: succeeds)
    next
      case (Some e)
      with a m f show ?thesis by (auto intro: fill_fails)
    qed
  qed
qed

lemma rotate_cases:
  obtains (index_fails) e where "list_index (self_menu s) (i - 1) = Inl e"
  | (propose_fails) sel e where "list_index (self_menu s) (i - 1) = Inr sel"
      "FollowupProposer_forward U L (rotate_ctx sel (cached s i)) (self_k s) = Inl e"
  | (fill_fails) sel m e ans cs where "list_index (self_menu s) (i - 1) = Inr sel"
      "FollowupProposer_forward U L (rotate_ctx sel (cached s i)) (self_k s) = Inr m"
      "fill_answers L sel 1 m Map.empty = (Some e, ans, cs)"
  | (succeeds) sel m ans cs where "list_index (self_menu s) (i - 1) = Inr sel"
      "FollowupProposer_forward U L (rotate_ctx sel (cached s i)) (self_k s) = Inr m"
      "fill_answers L sel 1 m Map.empty = (None, ans, cs)"
proof (cases "list_index (self_menu s) (i - 1)")
  case (Inl e)
  then show ?thesis by (rule index_fails)
next
  case a: (Inr sel)
  show ?thesis
  proof (cases "FollowupProposer_forward U L (rotate_ctx sel (cached s i)) (self_k s)")
    case (Inl e)
    with a show ?thesis by (rule propose_fails)
  next
    case m: (Inr m)
    obtain r ans cs where f: "fill_answers L sel 1 m Map.empty = (r, ans, cs)"
      by (cases "fill_answers L sel 1 m Map.empty") auto
    show ?thesis
    proof (cases r)
      case None
      with a m f show ?thesis by (auto intro: succeeds)
    next
      case (Some e)
      with a m f show ?thesis by (auto intro: fill_fails)
    qed
  qed
qed

lemma ask_success_dom:
  assumes A: "ask U L s q = (Inr r, s', cs)"
  shows "dom (self_answers s') = {1 .. int (length (self_menu s'))}"
proof (cases rule: ask_cases [where L = L and q = q and U = U and s = s])
  case (main_fails e)
  from A ask_main_fails [OF this, of U s] show ?thesis by simp
next
  case (propose_fails a e)
  from A ask_propose_fails [OF this] show ?thesis by simp
next
  case (fill_fails a m e ans cs1)
  from A ask_fill_fails [OF this] show ?thesis by simp
next
  case (succeeds a m ans cs1)
  from A ask_succeeds [OF this] have s': "self_menu s' = m" "self_answers s' = ans" by auto
  from fill_answers_success [OF succeeds(3)]
  have "dom ans = {1 ..< 1 + int (length m)}" by simp
  with s' show ?thesis by (simp add: atLeastLessThan_one)
qed

lemma rotate_success_dom:
  assumes A: "rotate_next_layer U L s i = (Inr r, s', cs)"
  shows "dom (self_answers s') = {1 .. int (length (self_menu s'))}"
proof (cases rule: rotate_cases [where L = L and i = i and U = U and s = s])
  case (index_fails e)
  from A rotate_index_fails [OF this, of U L] show ?thesis by simp
next
  case (propose_fails sel e)
  from A rotate_propose_fails [OF this] show ?thesis by simp
next
  case (fill_fails sel m e ans cs1)
  from A rotate_fill_fails [OF this] show ?thesis by simp
next
  case (succeeds sel m ans cs1)
  from A rotate_succeeds [OF this] have s': "self_menu s' = m" "self_answers s' = ans" by auto
  from fill_answers_success [OF succeeds(3)]
  have "dom ans = {1 ..< 1 + int (length m)}" by simp
  with s' show ?thesis by (simp add: atLeastLessThan_one)
qed

lemma rotations_dom:
  "rotations U s steps = Inr s' \<Longrightarrow>
   dom (self_answers s) = {1 .. int (length (self_menu s))} \<Longrightarrow>
   dom (self_answers s') = {1 .. int (length (self_menu s'))}"
proof (induction steps arbitrary: s)
  case Nil
  then show ?case by simp
next
  case (Cons step steps)
  obtain L i where step: "step = (L, i)" by (cases step)
  obtain r s1 cs where rot: "rotate_next_layer U L s i = (r, s1, cs)"
    by (cases "rotate_next_layer U L s i") auto
  show ?case
  proof (cases r)
    case (Inl e)
    with Cons.prems(1) step rot show ?thesis by simp
  next
    case (Inr m)
    with Cons.prems(1) step rot have "rotations U s1 steps = Inr s'" by simp
    moreover from rot Inr have "dom (self_answers s1) = {1 .. int (length (self_menu s1))}"
      by (simp add: rotate_success_dom)
    ultimately show ?thesis by (rule Cons.IH)
  qed
qed



section \<open>The example runs\<close>

lemma parse_XY:
  "FollowupProposer_parse U (ustr ''1. X'' @ [10] @ ustr ''2. Y'') 4 = [ustr ''X'', ustr ''Y'']"
  unfolding parse_described by (simp add: text_eval line_eval)


lemma steady_propose:
  "FollowupProposer_forward U steady_lm ctx 4 = Inr [ustr ''X'', ustr ''Y'']"
  using parse_XY [of U] by (simp add: FollowupProposer_forward_def steady_lm_def)


lemma steady_fill:
  "fill_answers steady_lm b 1 [ustr ''X'', ustr ''Y''] Map.empty =
     (None, [1 \<mapsto> b @ ustr ''/X'', 2 \<mapsto> b @ ustr ''/Y''],
      [FollowupAnswerSig b (ustr ''X''), FollowupAnswerSig b (ustr ''Y'')])"
  by (simp add: FollowupAnswerer_forward_def steady_lm_def ustr_def)

lemma three_first: "list_index (self_menu three) (1 - 1) = Inr (ustr ''A'')"
  by (simp add: list_index_def three_def)


lemma steady_rotate:
  "rotate_next_layer ascii_ucd steady_lm three 1 =
     (Inr [ustr ''X'', ustr ''Y''],
      \<lparr>self_k = 4, self_base = Some (ustr ''A''), self_menu = [ustr ''X'', ustr ''Y''],
       self_answers = [1 \<mapsto> ustr ''A/X'', 2 \<mapsto> ustr ''A/Y'']\<rparr>,
      [ProposeFollowupsSig (rotate_ctx (ustr ''A'') (ustr ''a'')),
       FollowupAnswerSig (ustr ''A'') (ustr ''X''), FollowupAnswerSig (ustr ''A'') (ustr ''Y'')])"
proof -
  have k: "self_k three = 4" and c: "cached three 1 = ustr ''a''" by (simp_all add: three_def)
  have p: "FollowupProposer_forward ascii_ucd steady_lm
             (rotate_ctx (ustr ''A'') (cached three 1)) (self_k three) = Inr [ustr ''X'', ustr ''Y'']"
    unfolding k by (rule steady_propose)
  from rotate_succeeds [OF three_first p steady_fill] show ?thesis
    by (simp add: three_def ustr_def)
qed

lemma steady_ask:
  "ask ascii_ucd steady_lm (init 4) (ustr ''Q'') =
     (Inr (ustr ''M'' @ [10, 10] @ ustr ''Follow-ups:'' @ [10] @ ustr ''1. X'' @ [10] @ ustr ''2. Y'',
           [ustr ''X'', ustr ''Y'']),
      \<lparr>self_k = 4, self_base = Some (ustr ''Q''), self_menu = [ustr ''X'', ustr ''Y''],
       self_answers = [1 \<mapsto> ustr ''Q/X'', 2 \<mapsto> ustr ''Q/Y'']\<rparr>,
      [MainAnswerSig (ustr ''Q''), ProposeFollowupsSig (ask_ctx (ustr ''Q'') (ustr ''M'')),
       FollowupAnswerSig (ustr ''Q'') (ustr ''X''), FollowupAnswerSig (ustr ''Q'') (ustr ''Y'')])"
proof -
  have m: "main_answer_p steady_lm (ustr ''Q'') = Inr (ustr ''M'')" by (simp add: steady_lm_def)
  have k: "self_k (init 4) = 4" by (simp add: init_def)
  have p: "FollowupProposer_forward ascii_ucd steady_lm
             (ask_ctx (ustr ''Q'') (ustr ''M'')) (self_k (init 4)) = Inr [ustr ''X'', ustr ''Y'']"
    unfolding k by (rule steady_propose)
  from ask_succeeds [OF m p steady_fill] show ?thesis
    by (simp add: init_def menu_text_def ustr_def str_nat.simps [of "Suc 0"]
          str_nat.simps [of "Suc (Suc 0)"])
qed


lemma steady_ask_asked:
  "ask ascii_ucd steady_lm (init 4) (ustr ''Q'') =
     (Inr (ustr ''M'' @ [10, 10] @ ustr ''Follow-ups:'' @ [10] @ ustr ''1. X'' @ [10] @ ustr ''2. Y'',
           [ustr ''X'', ustr ''Y'']),
      asked,
      [MainAnswerSig (ustr ''Q''), ProposeFollowupsSig (ask_ctx (ustr ''Q'') (ustr ''M'')),
       FollowupAnswerSig (ustr ''Q'') (ustr ''X''), FollowupAnswerSig (ustr ''Q'') (ustr ''Y'')])"
  unfolding asked_def by (rule steady_ask)

lemma steady_rotate_asked:
  "rotate_next_layer ascii_ucd steady_lm asked 2 =
     (Inr [ustr ''X'', ustr ''Y''], rotated,
      [ProposeFollowupsSig (rotate_ctx (ustr ''Y'') (ustr ''Q/Y'')),
       FollowupAnswerSig (ustr ''Y'') (ustr ''X''), FollowupAnswerSig (ustr ''Y'') (ustr ''Y'')])"
proof -
  have i: "list_index (self_menu asked) (2 - 1) = Inr (ustr ''Y'')"
    by (simp add: list_index_def asked_def)
  have k: "self_k asked = 4" and c: "cached asked 2 = ustr ''Q/Y''" by (simp_all add: asked_def)
  have p: "FollowupProposer_forward ascii_ucd steady_lm
             (rotate_ctx (ustr ''Y'') (cached asked 2)) (self_k asked) = Inr [ustr ''X'', ustr ''Y'']"
    unfolding k by (rule steady_propose)
  from rotate_succeeds [OF i p steady_fill] show ?thesis
    by (simp add: asked_def rotated_def ustr_def)
qed

section \<open>Claims about the conversation\<close>





text \<open>
  C2.  After a successful \<^verbatim>\<open>ask\<close>, and after any run of successful \<^verbatim>\<open>rotate_next_layer\<close>
  calls that follows it, the keys of the answer cache are exactly \<open>1..len(menu)\<close>.
\<close>

theorem cache_keys_are_menu_indices:
  "ask U L s q = (Inr r, s1, cs) \<Longrightarrow> rotations U s1 steps = Inr s2 \<Longrightarrow>
   dom (self_answers s1) = {1 .. int (length (self_menu s1))} \<and>
   dom (self_answers s2) = {1 .. int (length (self_menu s2))}"
proof -
  assume a: "ask U L s q = (Inr r, s1, cs)" and b: "rotations U s1 steps = Inr s2"
  have d1: "dom (self_answers s1) = {1 .. int (length (self_menu s1))}"
    using a by (rule ask_success_dom)
  have "dom (self_answers s2) = {1 .. int (length (self_menu s2))}"
    using b d1 by (rule rotations_dom)
  with d1 show ?thesis by simp
qed

theorem cache_keys_are_menu_indices_witness:
  "ask ascii_ucd steady_lm (init 4) (ustr ''Q'') =
     (Inr (ustr ''M'' @ [10, 10] @ ustr ''Follow-ups:'' @ [10] @ ustr ''1. X'' @ [10] @ ustr ''2. Y'',
           [ustr ''X'', ustr ''Y'']),
      asked,
      [MainAnswerSig (ustr ''Q''), ProposeFollowupsSig (ask_ctx (ustr ''Q'') (ustr ''M'')),
       FollowupAnswerSig (ustr ''Q'') (ustr ''X''), FollowupAnswerSig (ustr ''Q'') (ustr ''Y'')])
   \<and> rotations ascii_ucd asked [(steady_lm, 2)] = Inr rotated
   \<and> dom (self_answers asked) = {1 .. int (length (self_menu asked))}
   \<and> dom (self_answers rotated) = {1 .. int (length (self_menu rotated))}"
proof -
  have r: "rotations ascii_ucd asked [(steady_lm, 2)] = Inr rotated"
    by (simp add: steady_rotate_asked)
  from cache_keys_are_menu_indices [OF steady_ask_asked r] steady_ask_asked r
  show ?thesis by blast
qed

text \<open>
  C8.  For every valid index, \<^verbatim>\<open>rotate_next_layer\<close> sets the base question to the
  follow-up selected at that index, makes its proposal call on the context built from that
  follow-up and the answer cached at the index (\<^verbatim>\<open>self.answers.get(choice_idx, "")\<close>, the empty
  text when the cache has none), and makes every follow-up answer call with the selected
  follow-up as base question; when it returns, the calls are the proposal call and one
  follow-up answer call per entry of the new menu, whose results are the cache.
\<close>

theorem rotate_uses_selected:
  assumes lo: "1 \<le> i" and hi: "i \<le> int (length (self_menu s))"
    and run: "rotate_next_layer U L s i = (r, s', cs)"
  shows "self_base s' = Some (self_menu s ! nat (i - 1))
       \<and> (\<exists>rest. cs = ProposeFollowupsSig (rotate_ctx (self_menu s ! nat (i - 1)) (cached s i)) # rest \<and>
              (\<forall>c \<in> set rest. \<exists>fu. c = FollowupAnswerSig (self_menu s ! nat (i - 1)) fu))
       \<and> (\<forall>m. r = Inr m \<longrightarrow>
              self_menu s' = m \<and>
              cs = ProposeFollowupsSig (rotate_ctx (self_menu s ! nat (i - 1)) (cached s i))
                     # map (FollowupAnswerSig (self_menu s ! nat (i - 1))) m \<and>
              (\<forall>j < length m. \<exists>b. followup_answer_p L (self_menu s ! nat (i - 1)) (m ! j) = Inr b \<and>
                                   self_answers s' (1 + int j) = Some b))"
proof -
  let ?sel = "self_menu s ! nat (i - 1)"
  from lo hi have sel: "list_index (self_menu s) (i - 1) = Inr ?sel"
    by (simp add: list_index_def)
  show ?thesis
  proof (cases rule: rotate_cases [where L = L and i = i and U = U and s = s])
    case (index_fails e)
    with sel show ?thesis by simp
  next
    case (propose_fails sel' e)
    with sel have [simp]: "sel' = ?sel" by simp
    from run rotate_propose_fails [OF propose_fails] show ?thesis by auto
  next
    case (fill_fails sel' m e ans cs1)
    with sel have [simp]: "sel' = ?sel" by simp
    from fill_answers_failure [OF fill_fails(3)] obtain j where
      "cs1 = map (FollowupAnswerSig ?sel) (take (Suc j) m)" by auto
    then have "\<forall>c \<in> set cs1. \<exists>fu. c = FollowupAnswerSig ?sel fu" by auto
    with run rotate_fill_fails [OF fill_fails] show ?thesis by auto
  next
    case (succeeds sel' m ans cs1)
    with sel have [simp]: "sel' = ?sel" by simp
    from fill_answers_success [OF succeeds(3)]
    have cs1: "cs1 = map (FollowupAnswerSig ?sel) m"
      and vals: "\<forall>j < length m. \<exists>b. followup_answer_p L ?sel (m ! j) = Inr b \<and> ans (1 + int j) = Some b"
      by simp_all
    from cs1 have "\<forall>c \<in> set cs1. \<exists>fu. c = FollowupAnswerSig ?sel fu" by auto
    with run rotate_succeeds [OF succeeds] cs1 vals show ?thesis by auto
  qed
qed

lemma steady_rotate_half_done:
  "rotate_next_layer ascii_ucd steady_lm half_done 2 =
     (Inr [ustr ''X'', ustr ''Y''], rotated,
      [ProposeFollowupsSig (rotate_ctx (ustr ''Y'') []),
       FollowupAnswerSig (ustr ''Y'') (ustr ''X''), FollowupAnswerSig (ustr ''Y'') (ustr ''Y'')])"
proof -
  have i: "list_index (self_menu half_done) (2 - 1) = Inr (ustr ''Y'')"
    by (simp add: list_index_def half_done_def)
  have k: "self_k half_done = 4" and c: "cached half_done 2 = []" by (simp_all add: half_done_def)
  have p: "FollowupProposer_forward ascii_ucd steady_lm
             (rotate_ctx (ustr ''Y'') (cached half_done 2)) (self_k half_done) = Inr [ustr ''X'', ustr ''Y'']"
    unfolding k by (rule steady_propose)
  from rotate_succeeds [OF i p steady_fill] show ?thesis
    by (simp add: half_done_def rotated_def ustr_def)
qed

theorem rotate_uses_selected_witness:
  "(1::int) \<le> 1 \<and> 1 \<le> int (length (self_menu three))
   \<and> self_menu three ! nat (1 - 1) = ustr ''A'' \<and> cached three 1 = ustr ''a''
   \<and> rotate_next_layer ascii_ucd steady_lm three 1 =
        (Inr [ustr ''X'', ustr ''Y''],
         \<lparr>self_k = 4, self_base = Some (ustr ''A''), self_menu = [ustr ''X'', ustr ''Y''],
          self_answers = [1 \<mapsto> ustr ''A/X'', 2 \<mapsto> ustr ''A/Y'']\<rparr>,
         [ProposeFollowupsSig (rotate_ctx (ustr ''A'') (ustr ''a'')),
          FollowupAnswerSig (ustr ''A'') (ustr ''X''), FollowupAnswerSig (ustr ''A'') (ustr ''Y'')])
   \<and> (\<exists>b. followup_answer_p steady_lm (ustr ''A'') (ustr ''Y'') = Inr b \<and>
           self_answers \<lparr>self_k = 4, self_base = Some (ustr ''A''), self_menu = [ustr ''X'', ustr ''Y''],
              self_answers = [1 \<mapsto> ustr ''A/X'', 2 \<mapsto> ustr ''A/Y'']\<rparr> 2 = Some b)
   \<and> (2::int) \<le> int (length (self_menu half_done)) \<and> self_answers half_done 2 = None
   \<and> self_menu half_done ! nat (2 - 1) = ustr ''Y''
   \<and> rotate_next_layer ascii_ucd steady_lm half_done 2 =
        (Inr [ustr ''X'', ustr ''Y''], rotated,
         [ProposeFollowupsSig (rotate_ctx (ustr ''Y'') []),
          FollowupAnswerSig (ustr ''Y'') (ustr ''X''), FollowupAnswerSig (ustr ''Y'') (ustr ''Y'')])
   \<and> self_base rotated = Some (ustr ''Y'')"
proof -
  have lo: "(1::int) \<le> 1" by simp
  have hi: "1 \<le> int (length (self_menu three))" by (simp add: three_def)
  have imm: "cached three 1 = ustr ''a''" by (simp add: three_def)
  have sel: "self_menu three ! nat (1 - 1) = ustr ''A''" by (simp add: three_def)
  from rotate_uses_selected [OF lo hi steady_rotate]
  have "\<forall>j < length [ustr ''X'', ustr ''Y''].
          \<exists>b. followup_answer_p steady_lm (self_menu three ! nat (1 - 1)) ([ustr ''X'', ustr ''Y''] ! j) = Inr b \<and>
              self_answers \<lparr>self_k = 4, self_base = Some (ustr ''A''), self_menu = [ustr ''X'', ustr ''Y''],
                 self_answers = [1 \<mapsto> ustr ''A/X'', 2 \<mapsto> ustr ''A/Y'']\<rparr> (1 + int j) = Some b"
    by blast
  then have "\<exists>b. followup_answer_p steady_lm (self_menu three ! nat (1 - 1)) ([ustr ''X'', ustr ''Y''] ! 1) = Inr b \<and>
              self_answers \<lparr>self_k = 4, self_base = Some (ustr ''A''), self_menu = [ustr ''X'', ustr ''Y''],
                 self_answers = [1 \<mapsto> ustr ''A/X'', 2 \<mapsto> ustr ''A/Y'']\<rparr> (1 + int 1) = Some b"
    by (rule allE [where x = 1]) simp
  then have one: "\<exists>b. followup_answer_p steady_lm (ustr ''A'') (ustr ''Y'') = Inr b \<and>
           self_answers \<lparr>self_k = 4, self_base = Some (ustr ''A''), self_menu = [ustr ''X'', ustr ''Y''],
              self_answers = [1 \<mapsto> ustr ''A/X'', 2 \<mapsto> ustr ''A/Y'']\<rparr> 2 = Some b"
    using sel by simp
  have lo2: "(1::int) \<le> 2" by simp
  have hi2: "(2::int) \<le> int (length (self_menu half_done))" by (simp add: half_done_def)
  have none: "self_answers half_done 2 = None" by (simp add: half_done_def)
  have sel2: "self_menu half_done ! nat (2 - 1) = ustr ''Y''" by (simp add: half_done_def)
  from rotate_uses_selected [OF lo2 hi2 steady_rotate_half_done] sel2
  have base2: "self_base rotated = Some (ustr ''Y'')" by simp
  from lo hi sel imm steady_rotate one hi2 none sel2 steady_rotate_half_done base2
  show ?thesis by blast
qed

lemma parse_empty: "FollowupProposer_parse U [] k = []"
  by (simp add: FollowupProposer_parse_def splitlines_def)

lemma peek_empty_menu:
  "self_menu t = [] \<Longrightarrow>
   fst (peek_immediate t j) = ustr ''Please choose a number between 1 and 0.''"
  by (simp add: peek_immediate_def ustr_def str_nat.simps [of 0])

lemma rotate_empty_menu:
  "self_menu t = [] \<Longrightarrow> rotate_next_layer U L t j = (Inl IndexError, t, [])"
  by (rule rotate_index_fails) (simp add: list_index_def)

text \<open>
  C9.  When the proposal parses to no question (the empty text, for example), \<^verbatim>\<open>ask\<close> and
  \<^verbatim>\<open>rotate_next_layer\<close> return with an empty menu and an empty cache; in a state with an
  empty menu every \<^verbatim>\<open>peek_immediate\<close> returns the out-of-range message, and every
  \<^verbatim>\<open>rotate_next_layer\<close> raises at the lookup and leaves the state as it is, so the menu
  stays empty until \<^verbatim>\<open>ask\<close> is called.
\<close>

theorem zero_questions:
  assumes none: "FollowupProposer_parse U (case fo of None \<Rightarrow> [] | Some raw \<Rightarrow> raw) (self_k s) = []"
  shows "(main_answer_p L q = Inr a \<and> propose_followups_p L (ask_ctx q a) = Inr fo \<longrightarrow>
            ask U L s q =
              (Inr (a, []), s\<lparr>self_base := Some q, self_menu := [], self_answers := Map.empty\<rparr>,
               [MainAnswerSig q, ProposeFollowupsSig (ask_ctx q a)]))
       \<and> (list_index (self_menu s) (i - 1) = Inr sel \<and>
          propose_followups_p L (rotate_ctx sel (cached s i)) = Inr fo \<longrightarrow>
            rotate_next_layer U L s i =
              (Inr [], s\<lparr>self_base := Some sel, self_menu := [], self_answers := Map.empty\<rparr>,
               [ProposeFollowupsSig (rotate_ctx sel (cached s i))]))
       \<and> (\<forall>t. self_menu t = [] \<longrightarrow>
            (\<forall>j. fst (peek_immediate t j) = ustr ''Please choose a number between 1 and 0.'') \<and>
            (\<forall>L' j. rotate_next_layer U L' t j = (Inl IndexError, t, [])))
       \<and> FollowupProposer_parse U [] k = []"
proof -
  have fill: "fill_answers L b 1 [] Map.empty = (None, Map.empty, [])" for b by simp
  have ask_part: "ask U L s q =
          (Inr (a, []), s\<lparr>self_base := Some q, self_menu := [], self_answers := Map.empty\<rparr>,
           [MainAnswerSig q, ProposeFollowupsSig (ask_ctx q a)])"
    if m: "main_answer_p L q = Inr a" and p: "propose_followups_p L (ask_ctx q a) = Inr fo"
  proof -
    from p none have "FollowupProposer_forward U L (ask_ctx q a) (self_k s) = Inr []"
      by (simp add: FollowupProposer_forward_def)
    from ask_succeeds [OF m this fill] show ?thesis by (simp add: menu_text_def)
  qed
  have rotate_part: "rotate_next_layer U L s i =
          (Inr [], s\<lparr>self_base := Some sel, self_menu := [], self_answers := Map.empty\<rparr>,
           [ProposeFollowupsSig (rotate_ctx sel (cached s i))])"
    if x: "list_index (self_menu s) (i - 1) = Inr sel"
      and p: "propose_followups_p L (rotate_ctx sel (cached s i)) = Inr fo"
  proof -
    from p none have "FollowupProposer_forward U L (rotate_ctx sel (cached s i)) (self_k s) = Inr []"
      by (simp add: FollowupProposer_forward_def)
    from rotate_succeeds [OF x this fill] show ?thesis .
  qed
  from ask_part rotate_part peek_empty_menu rotate_empty_menu parse_empty
  show ?thesis by blast
qed

theorem zero_questions_witness:
  "FollowupProposer_parse ascii_ucd (case None of None \<Rightarrow> [] | Some raw \<Rightarrow> raw) (self_k three) = []
   \<and> main_answer_p silent_lm (ustr ''Q2'') = Inr (ustr ''M'')
   \<and> propose_followups_p silent_lm (ask_ctx (ustr ''Q2'') (ustr ''M'')) = Inr None
   \<and> ask ascii_ucd silent_lm three (ustr ''Q2'') =
        (Inr (ustr ''M'', []),
         three\<lparr>self_base := Some (ustr ''Q2''), self_menu := [], self_answers := Map.empty\<rparr>,
         [MainAnswerSig (ustr ''Q2''), ProposeFollowupsSig (ask_ctx (ustr ''Q2'') (ustr ''M''))])
   \<and> list_index (self_menu three) (1 - 1) = Inr (ustr ''A'')
   \<and> propose_followups_p silent_lm (rotate_ctx (ustr ''A'') (cached three 1)) = Inr None
   \<and> rotate_next_layer ascii_ucd silent_lm three 1 =
        (Inr [], three\<lparr>self_base := Some (ustr ''A''), self_menu := [], self_answers := Map.empty\<rparr>,
         [ProposeFollowupsSig (rotate_ctx (ustr ''A'') (cached three 1))])
   \<and> fst (peek_immediate
             (three\<lparr>self_base := Some (ustr ''A''), self_menu := [], self_answers := Map.empty\<rparr>) 1)
        = ustr ''Please choose a number between 1 and 0.''
   \<and> rotate_next_layer ascii_ucd steady_lm
        (three\<lparr>self_base := Some (ustr ''A''), self_menu := [], self_answers := Map.empty\<rparr>) 1
        = (Inl IndexError,
           three\<lparr>self_base := Some (ustr ''A''), self_menu := [], self_answers := Map.empty\<rparr>, [])"
proof -
  have none: "FollowupProposer_parse ascii_ucd (case None of None \<Rightarrow> [] | Some raw \<Rightarrow> raw)
                (self_k three) = []"
    by (simp add: parse_empty)
  have m: "main_answer_p silent_lm (ustr ''Q2'') = Inr (ustr ''M'')"
    and p: "propose_followups_p silent_lm (ask_ctx (ustr ''Q2'') (ustr ''M'')) = Inr None"
    and p': "propose_followups_p silent_lm (rotate_ctx (ustr ''A'') (cached three 1)) = Inr None"
    by (simp_all add: silent_lm_def)
  have e: "self_menu (three\<lparr>self_base := Some (ustr ''A''), self_menu := [],
             self_answers := Map.empty\<rparr>) = []" by simp
  note z = zero_questions [OF none, where L = silent_lm and q = "ustr ''Q2''" and a = "ustr ''M''"
      and i = 1 and sel = "ustr ''A''" and k = 4]
  from z m p three_first p' e none show ?thesis by blast
qed



lemma list_index_fails_iff:
  "list_index xs j = Inl IndexError \<longleftrightarrow> j \<ge> int (length xs) \<or> j < - int (length xs)"
  by (auto simp: list_index_def)

lemma list_index_minus_one: "xs \<noteq> [] \<Longrightarrow> list_index xs (- 1) = Inr (last xs)"
proof -
  assume ne: "xs \<noteq> []"
  then have "nat (- 1 + int (length xs)) = length xs - 1" and "Suc 0 \<le> length xs"
    by (cases xs; simp)+
  with ne show ?thesis by (simp add: list_index_def last_conv_nth)
qed

lemma rotate_base:
  "list_index (self_menu s) (i - 1) = Inr sel \<Longrightarrow>
   self_base (fst (snd (rotate_next_layer U L s i))) = Some sel"
proof (cases rule: rotate_cases [where L = L and i = i and U = U and s = s])
  case (index_fails e)
  assume "list_index (self_menu s) (i - 1) = Inr sel"
  with index_fails show ?thesis by simp
next
  case (propose_fails sel' e)
  assume "list_index (self_menu s) (i - 1) = Inr sel"
  with propose_fails rotate_propose_fails [OF propose_fails] show ?thesis by simp
next
  case (fill_fails sel' m e ans cs1)
  assume "list_index (self_menu s) (i - 1) = Inr sel"
  with fill_fails rotate_fill_fails [OF fill_fails] show ?thesis by simp
next
  case (succeeds sel' m ans cs1)
  assume "list_index (self_menu s) (i - 1) = Inr sel"
  with succeeds rotate_succeeds [OF succeeds] show ?thesis by simp
qed

text \<open>
  C10, as stated, fails: an index that is at most minus the length of the menu makes the
  lookup fail too, and it is not greater than the length.
\<close>

theorem rotate_index_range_counterexample:
  "rotate_next_layer ascii_ucd steady_lm three (- 3) = (Inl IndexError, three, [])
   \<and> list_index (self_menu three) (- 3 - 1) = Inl IndexError
   \<and> \<not> (- 3 > int (length (self_menu three)))"
proof -
  have x: "list_index (self_menu three) (- 3 - 1) = Inl IndexError"
    by (simp add: list_index_def three_def)
  from rotate_index_fails [OF x] x show ?thesis by simp
qed

text \<open>
  C10, amended.  With a menu that is not empty, \<^verbatim>\<open>menu[0 - 1]\<close> is the last entry, so
  \<^verbatim>\<open>rotate_next_layer(0)\<close> rotates onto the last follow-up; the lookup of the selected
  follow-up fails exactly when the index is greater than the length of the menu or at
  most minus the length, and then the call raises with the state unchanged.
\<close>

theorem rotate_index_range:
  assumes ne: "self_menu s \<noteq> []"
  shows "list_index (self_menu s) (0 - 1) = Inr (last (self_menu s))
       \<and> self_base (fst (snd (rotate_next_layer U L s 0))) = Some (last (self_menu s))
       \<and> (list_index (self_menu s) (i - 1) = Inl IndexError \<longleftrightarrow>
            i > int (length (self_menu s)) \<or> i \<le> - int (length (self_menu s)))
       \<and> (list_index (self_menu s) (i - 1) = Inl IndexError \<longrightarrow>
            rotate_next_layer U L s i = (Inl IndexError, s, []))"
proof -
  from ne have a: "list_index (self_menu s) (0 - 1) = Inr (last (self_menu s))"
    by (simp add: list_index_minus_one)
  then have b: "self_base (fst (snd (rotate_next_layer U L s 0))) = Some (last (self_menu s))"
    by (rule rotate_base)
  have c: "list_index (self_menu s) (i - 1) = Inl IndexError \<longleftrightarrow>
            i > int (length (self_menu s)) \<or> i \<le> - int (length (self_menu s))"
    unfolding list_index_fails_iff by auto
  from a b c rotate_index_fails [of s i IndexError U L] show ?thesis by blast
qed

theorem rotate_index_range_witness:
  "self_menu three \<noteq> []
   \<and> list_index (self_menu three) (0 - 1) = Inr (ustr ''C'')
   \<and> self_base (fst (snd (rotate_next_layer ascii_ucd steady_lm three 0))) = Some (ustr ''C'')
   \<and> list_index (self_menu three) (4 - 1) = Inl IndexError
   \<and> rotate_next_layer ascii_ucd steady_lm three 4 = (Inl IndexError, three, [])
   \<and> list_index (self_menu three) (- 3 - 1) = Inl IndexError
   \<and> list_index (self_menu three) (- 2 - 1) \<noteq> Inl IndexError"
proof -
  have ne: "self_menu three \<noteq> []" and l: "last (self_menu three) = ustr ''C''"
    and n: "int (length (self_menu three)) = 3"
    by (simp_all add: three_def)
  note r0 = rotate_index_range [OF ne, of ascii_ucd steady_lm]
  from r0 [of 4] r0 [of "- 3"] r0 [of "- 2"] ne l n show ?thesis by simp
qed

end
